theory Spec2Isabelle
  imports Complex_Main
begin

chapter \<open>Group-sparse covariance estimation: the block coordinate descent solver\<close>

text \<open>
  A shallow embedding of \<^verbatim>\<open>nilearn/group_sparse_covariance.py\<close>.

  Conventions of the embedding.
  \<^item> A Python float is a real number. Where the floating-point computation leaves the
    finite numbers because it divides by zero (numpy then stores \<^verbatim>\<open>inf\<close> or \<^verbatim>\<open>nan\<close> and
    goes on), the model stops with the outcome \<open>NonFinite\<close>; this is not a Python
    exception, it marks a run whose arrays are no longer arrays of reals. Rounding is
    not modelled.
  \<^item> A 2-D array is the list of its rows, \<^verbatim>\<open>A[i, j]\<close> is \<open>A ! i ! j\<close>. A 3-D array of
    shape \<^verbatim>\<open>(n_var, n_var, n_tasks)\<close> is the list of its per-task matrices:
    \<^verbatim>\<open>A[i, j, k]\<close> is \<open>A ! k ! i ! j\<close> and the view \<^verbatim>\<open>A[..., k]\<close> is \<open>A ! k\<close>.
  \<^item> Exceptions are values: a function that can raise returns \<open>error + 'a\<close>.
  \<^item> Library routines that are not part of the repository (the covariance estimator,
    the dense inverse, the log-determinant, the positive-definiteness test) are the
    fields of a record \<open>lib\<close> passed to the functions that call them.
  \<^item> The \<^verbatim>\<open>debug=False\<close> path is modelled; \<^verbatim>\<open>verbose\<close> only prints and is left out.
\<close>

section \<open>Errors and Python values\<close>

datatype value_error =
    RhoNotPositive          \<comment> \<open>line 277\<close>
  | FeatureCountMismatch    \<comment> \<open>line 570\<close>
  | NegativeDimensions      \<comment> \<open>numpy: an array shape with a negative entry, lines 296-299\<close>

datatype error =
    ValueError value_error
  | IndexError              \<comment> \<open>\<^verbatim>\<open>tasks[0]\<close> on an empty sequence, line 573\<close>
  | LinAlgError             \<comment> \<open>raised by the dense inverse on a singular matrix\<close>
  | RuntimeError            \<comment> \<open>raised by the root finder when its iteration budget is used up\<close>
  | AssertionError          \<comment> \<open>line 95\<close>
  | NonFinite               \<comment> \<open>a division by zero: the floats are \<^verbatim>\<open>inf\<close>/\<^verbatim>\<open>nan\<close> from here on\<close>

datatype pyfloat = Finite real | PosInf | NegInf | NaN

datatype pyval = PyInt int | PyFloat pyfloat | PyStr string | PyNone

text \<open>\<^verbatim>\<open>isinstance(rho, (int, float))\<close>\<close>

fun isinstance_int_float :: "pyval \<Rightarrow> bool" where
  "isinstance_int_float (PyInt i) = True"
| "isinstance_int_float (PyFloat f) = True"
| "isinstance_int_float (PyStr s) = False"
| "isinstance_int_float PyNone = False"

text \<open>\<^verbatim>\<open>rho < 0\<close> on a number: every comparison with \<^verbatim>\<open>nan\<close> is false.\<close>

fun lt_zero :: "pyval \<Rightarrow> bool" where
  "lt_zero (PyInt i) = (i < 0)"
| "lt_zero (PyFloat (Finite r)) = (r < 0)"
| "lt_zero (PyFloat PosInf) = False"
| "lt_zero (PyFloat NegInf) = True"
| "lt_zero (PyFloat NaN) = False"
| "lt_zero (PyStr s) = False"
| "lt_zero PyNone = False"

text \<open>The value of a finite number; \<open>None\<close> for everything else.\<close>

fun finite_value :: "pyval \<Rightarrow> real option" where
  "finite_value (PyInt i) = Some (of_int i)"
| "finite_value (PyFloat (Finite r)) = Some r"
| "finite_value (PyFloat PosInf) = None"
| "finite_value (PyFloat NegInf) = None"
| "finite_value (PyFloat NaN) = None"
| "finite_value (PyStr s) = None"
| "finite_value PyNone = None"

section \<open>Arrays\<close>

type_synonym vec = "real list"
type_synonym mat = "real list list"
type_synonym stack = "real list list list"

text \<open>\<^verbatim>\<open>A.shape[1]\<close> of a 2-D array with at least one row.\<close>

definition shape1 :: "'a list list \<Rightarrow> nat" where
  "shape1 A = (case A of [] \<Rightarrow> 0 | r # rs \<Rightarrow> length r)"

text \<open>\<open>del i xs\<close> is \<^verbatim>\<open>xs[:i]\<close> followed by \<^verbatim>\<open>xs[i+1:]\<close>; \<open>ins i x xs\<close> puts \<open>x\<close> back
  at position \<open>i\<close>.\<close>

definition del :: "nat \<Rightarrow> 'a list \<Rightarrow> 'a list" where
  "del i xs = take i xs @ drop (Suc i) xs"

definition ins :: "nat \<Rightarrow> 'a \<Rightarrow> 'a list \<Rightarrow> 'a list" where
  "ins i x xs = take i xs @ x # drop i xs"

text \<open>\<^verbatim>\<open>A[:, j]\<close> and the assignment \<^verbatim>\<open>A[:, j] = v\<close>.\<close>

definition col :: "mat \<Rightarrow> nat \<Rightarrow> vec" where
  "col A j = map (\<lambda>r. r ! j) A"

definition set_col :: "nat \<Rightarrow> vec \<Rightarrow> mat \<Rightarrow> mat" where
  "set_col j v A = map2 (\<lambda>r x. r[j := x]) A v"

text \<open>\<^verbatim>\<open>np.dot\<close> on two vectors, on a vector and a matrix, on a matrix and a vector;
  \<^verbatim>\<open>np.outer\<close>; elementwise difference and sum.\<close>

definition dot :: "vec \<Rightarrow> vec \<Rightarrow> real" where
  "dot xs ys = sum_list (map2 (*) xs ys)"

definition vecmat :: "vec \<Rightarrow> mat \<Rightarrow> vec" where
  "vecmat x A = map (\<lambda>j. dot x (col A j)) [0..<shape1 A]"

definition matvec :: "mat \<Rightarrow> vec \<Rightarrow> vec" where
  "matvec A x = map (\<lambda>r. dot r x) A"

definition outer :: "vec \<Rightarrow> vec \<Rightarrow> mat" where
  "outer xs ys = map (\<lambda>x. map (\<lambda>y. x * y) ys) xs"

definition vec_sub :: "vec \<Rightarrow> vec \<Rightarrow> vec" where
  "vec_sub xs ys = map2 (-) xs ys"

definition mat_sub :: "mat \<Rightarrow> mat \<Rightarrow> mat" where
  "mat_sub A B = map2 vec_sub A B"

definition mat_add :: "mat \<Rightarrow> mat \<Rightarrow> mat" where
  "mat_add A B = map2 (map2 (+)) A B"

text \<open>\<^verbatim>\<open>M.T\<close>, \<^verbatim>\<open>np.diag\<close> of a matrix and of a vector.\<close>

definition transpose_arr :: "mat \<Rightarrow> mat" where
  "transpose_arr M = map (col M) [0..<shape1 M]"

definition diagonal :: "mat \<Rightarrow> vec" where
  "diagonal M = map (\<lambda>i. M ! i ! i) [0..<length M]"

definition diag_matrix :: "vec \<Rightarrow> mat" where
  "diag_matrix d =
     map (\<lambda>i. map (\<lambda>j. if i = j then d ! i else 0) [0..<length d]) [0..<length d]"

text \<open>The matrix with row and column \<open>p\<close> removed: \<^verbatim>\<open>omega[1:, 1:]\<close> for \<open>p = 0\<close>
  (line 321), and the four blocks that \<^verbatim>\<open>assert_submatrix\<close> (lines 192-196) puts
  together in general.\<close>

definition submatrix :: "nat \<Rightarrow> mat \<Rightarrow> mat" where
  "submatrix p full = del p (map (del p) full)"

text \<open>The first error of a loop over a list, or all the results.\<close>

fun collect :: "(error + 'a) list \<Rightarrow> error + 'a list" where
  "collect [] = Inr []"
| "collect (x # xs) =
     (case x of
        Inl e \<Rightarrow> Inl e
      | Inr a \<Rightarrow> (case collect xs of Inl e \<Rightarrow> Inl e | Inr as \<Rightarrow> Inr (a # as)))"

text \<open>A \<^verbatim>\<open>for\<close> loop whose body can raise: the state is threaded through the indices.\<close>

fun for_loop :: "('i \<Rightarrow> 's \<Rightarrow> error + 's) \<Rightarrow> 'i list \<Rightarrow> 's \<Rightarrow> error + 's" where
  "for_loop body [] s = Inr s"
| "for_loop body (i # is) s =
     (case body i s of Inl e \<Rightarrow> Inl e | Inr s' \<Rightarrow> for_loop body is s')"

section \<open>Library routines\<close>

text \<open>
  \<^item> \<open>empirical_covariance s assume_centered\<close>: \<^verbatim>\<open>sklearn.covariance.empirical_covariance\<close>;
  \<^item> \<open>linalg_inv\<close>: \<^verbatim>\<open>np.linalg.inv\<close>; \<open>None\<close> is the \<^verbatim>\<open>LinAlgError\<close> it raises on a
    singular matrix;
  \<^item> \<open>fast_logdet\<close>: \<^verbatim>\<open>sklearn.utils.extmath.fast_logdet\<close>;
  \<^item> \<open>is_spd\<close>: \<^verbatim>\<open>nilearn.testing.is_spd\<close>.
\<close>

record lib =
  empirical_covariance :: "mat \<Rightarrow> bool \<Rightarrow> mat"
  linalg_inv :: "mat \<Rightarrow> mat option"
  fast_logdet :: "mat \<Rightarrow> real"
  is_spd :: "mat \<Rightarrow> bool"

text \<open>
  Modelled from the spec: \<^verbatim>\<open>scipy.optimize.newton\<close> with a derivative, which the spec
  (4.3, step 4) describes as Newton-Raphson from a start value, capped at \<open>maxiter\<close>
  iterations, with a tolerance on the root value. One iteration takes the step
  \<open>p = p0 - func p0 / fprime p0\<close> and returns \<open>p\<close> once \<open>\<bar>p - p0\<bar> < tol\<close>; a zero
  derivative returns the current point; a used-up budget raises. \<open>func\<close> and \<open>fprime\<close>
  give \<open>None\<close> where their value is not finite.
\<close>

fun newton_loop ::
  "(real \<Rightarrow> real option) \<Rightarrow> (real \<Rightarrow> real option) \<Rightarrow> real \<Rightarrow> nat \<Rightarrow> real \<Rightarrow> error + real"
where
  "newton_loop func fprime tol 0 p0 = Inl RuntimeError"
| "newton_loop func fprime tol (Suc n) p0 =
     (case fprime p0 of
        None \<Rightarrow> Inl NonFinite
      | Some fder \<Rightarrow>
          if fder = 0 then Inr p0
          else (case func p0 of
                  None \<Rightarrow> Inl NonFinite
                | Some fval \<Rightarrow>
                    (let p = p0 - fval / fder
                     in if \<bar>p - p0\<bar> < tol then Inr p
                        else newton_loop func fprime tol n p)))"

definition newton ::
  "(real \<Rightarrow> real option) \<Rightarrow> real \<Rightarrow> (real \<Rightarrow> real option) \<Rightarrow> nat \<Rightarrow> real \<Rightarrow> error + real"
where
  "newton func x0 fprime maxiter tol = newton_loop func fprime tol maxiter x0"

section \<open>symmetrize, empirical_covariances\<close>

text \<open>Lines 28-31. The right-hand side \<^verbatim>\<open>M + M.T\<close> is a new array, so the assignment
  reads the old \<open>M\<close> only.\<close>

definition symmetrize :: "mat \<Rightarrow> mat" where
  "symmetrize M = map (map (\<lambda>x. x / 2)) (mat_add M (transpose_arr M))"

text \<open>Lines 553-586. A task is a 2-D array with at least one row (one sample).\<close>

definition empirical_covariances ::
  "lib \<Rightarrow> mat list \<Rightarrow> bool \<Rightarrow> error + (stack \<times> vec \<times> nat \<times> nat)"
where
  "empirical_covariances L tasks assume_centered =
     (let n_feat = map shape1 tasks in
      if length (remdups n_feat) > 1 then Inl (ValueError FeatureCountMismatch)
      else (case tasks of
              [] \<Rightarrow> Inl IndexError
            | t0 # ts \<Rightarrow>
                (let n_tasks = length tasks;
                     n_var = shape1 t0;
                     emp_covs = map (\<lambda>s. symmetrize (empirical_covariance L s assume_centered)) tasks;
                     n_samples = map (\<lambda>s. real (length s)) tasks;
                     total = sum_list n_samples
                 in if total = 0 then Inl NonFinite
                    else Inr (emp_covs, map (\<lambda>x. x / total) n_samples, n_tasks, n_var))))"

section \<open>The cost evaluator\<close>

text \<open>\<^verbatim>\<open>np.sqrt((A ** 2).sum(axis=-1))\<close>: the Euclidean norm over the tasks of each entry.\<close>

definition group_norms :: "stack \<Rightarrow> nat \<Rightarrow> mat" where
  "group_norms A n =
     map (\<lambda>i. map (\<lambda>j. sqrt (sum_list (map (\<lambda>M. (M ! i ! j)\<^sup>2) A))) [0..<n]) [0..<n]"

text \<open>\<^verbatim>\<open>(A * B).sum()\<close>\<close>

definition scalar_product :: "mat \<Rightarrow> mat \<Rightarrow> real" where
  "scalar_product A B = sum_list (map2 dot A B)"

text \<open>Lines 93-98: \<open>A(k) = n_samples[k] * (inv(omega(k)) - emp_covs(k))\<close>, with the
  assertion of line 95.\<close>

definition dual_point :: "lib \<Rightarrow> real \<Rightarrow> mat \<Rightarrow> mat \<Rightarrow> error + mat" where
  "dual_point L n_k omega_k emp_k =
     (case linalg_inv L omega_k of
        None \<Rightarrow> Inl LinAlgError
      | Some omega_inv \<Rightarrow>
          if \<not> is_spd L omega_inv then Inl AssertionError
          else Inr (map (map (\<lambda>x. n_k * x)) (mat_sub omega_inv emp_k)))"

text \<open>Lines 101-105: the groups whose norm exceeds \<open>rho\<close> are scaled down to \<open>rho\<close>, the
  diagonal is set to zero.\<close>

definition project :: "real \<Rightarrow> mat \<Rightarrow> nat \<Rightarrow> mat \<Rightarrow> mat" where
  "project rho rho_max n A_k =
     map (\<lambda>i. map (\<lambda>j. if i = j then 0
                        else if rho_max ! i ! j > rho then A_k ! i ! j * (rho / rho_max ! i ! j)
                        else A_k ! i ! j) [0..<n]) [0..<n]"

text \<open>Lines 59-120, returning \<open>(cost, gap)\<close>.\<close>

definition group_sparse_covariance_costs ::
  "lib \<Rightarrow> nat \<Rightarrow> nat \<Rightarrow> vec \<Rightarrow> real \<Rightarrow> stack \<Rightarrow> stack \<Rightarrow> error + (real \<times> real)"
where
  "group_sparse_covariance_costs L n_tasks n_var n_samples rho omega emp_covs =
     (let ll = (\<Sum>k\<leftarrow>[0..<n_tasks]. n_samples ! k *
                  (fast_logdet L (omega ! k) - scalar_product (omega ! k) (emp_covs ! k)));
          l2 = group_norms omega n_var;
          l12 = sum_list (map sum_list l2) - sum_list (diagonal l2);
          cost = - (ll - rho * l12)
      in case collect (map (\<lambda>k. dual_point L (n_samples ! k) (omega ! k) (emp_covs ! k))
                         [0..<n_tasks]) of
           Inl e \<Rightarrow> Inl e
         | Inr A \<Rightarrow>
             (let rho_max = group_norms A n_var;
                  A = map (project rho rho_max n_var) A
              in if \<exists>k\<in>set [0..<n_tasks]. n_samples ! k = 0 then Inl NonFinite
                 else
                   (let dual_cost = (\<Sum>k\<leftarrow>[0..<n_tasks]. n_samples ! k *
                          (real n_var + fast_logdet L
                             (mat_add (emp_covs ! k)
                                (map (map (\<lambda>x. x / n_samples ! k)) (A ! k)))))
                    in Inr (cost, cost - dual_cost))))"

section \<open>The root-find functions\<close>

text \<open>Lines 125-132. Both divide by powers of \<open>1 + alpha * q(k)\<close>.\<close>

definition quad_trust_region :: "real \<Rightarrow> vec \<Rightarrow> vec \<Rightarrow> vec \<Rightarrow> real \<Rightarrow> real option" where
  "quad_trust_region alpha q two_ccq cc rho2 =
     (if \<exists>qk\<in>set q. 1 + alpha * qk = 0 then None
      else Some (rho2 - sum_list (map2 (\<lambda>c qk. c / (1 + alpha * qk)\<^sup>2) cc q)))"

definition quad_trust_region_deriv :: "real \<Rightarrow> vec \<Rightarrow> vec \<Rightarrow> vec \<Rightarrow> real \<Rightarrow> real option" where
  "quad_trust_region_deriv alpha q two_ccq cc rho2 =
     (if \<exists>qk\<in>set q. 1 + alpha * qk = 0 then None
      else Some (sum_list (map2 (\<lambda>t qk. t / (1 + alpha * qk) ^ 3) two_ccq q)))"

section \<open>The submatrix maintainer\<close>

text \<open>Lines 135-154, for \<open>0 \<le> n\<close>.\<close>

definition update_vectors :: "mat \<Rightarrow> nat \<Rightarrow> vec \<times> vec" where
  "update_vectors full n =
     (let v = take (n + 1) (col full n) @ drop (n + 2) (col full n);
          h = take (n + 1) (full ! n) @ drop (n + 2) (full ! n)
      in (h, v))"

text \<open>Lines 157-185, for \<open>1 \<le> p\<close> (the only calls, line 337, are under \<^verbatim>\<open>p != 0\<close>).
  The function updates \<open>sub\<close> and \<open>sub_inv\<close> in place; the model returns both.\<close>

definition update_submatrix :: "mat \<Rightarrow> mat \<Rightarrow> mat \<Rightarrow> nat \<Rightarrow> error + (mat \<times> mat)" where
  "update_submatrix full sub sub_inv p =
     (let n = p - 1;
          (h, v) = update_vectors full n;
          coln = col sub_inv n;
          V = vec_sub h (sub ! n);
          d1 = 1 + dot V coln
      in if d1 = 0 then Inl NonFinite
         else
           (let coln = map (\<lambda>x. x / d1) coln;
                sub_inv = mat_sub sub_inv (outer coln (vecmat V sub_inv));
                sub = sub[n := h];
                rown = sub_inv ! n;
                U = vec_sub v (col sub n);
                d2 = 1 + dot rown U
            in if d2 = 0 then Inl NonFinite
               else
                 (let rown = map (\<lambda>x. x / d2) rown;
                      sub_inv = mat_sub sub_inv (outer (matvec sub_inv U) rown);
                      sub = set_col n v sub
                  in Inr (sub, sub_inv))))"

section \<open>The outer driver\<close>

text \<open>Lines 285-293: the start value of the precision stack.\<close>

definition initial_precisions :: "stack \<Rightarrow> stack option \<Rightarrow> error + stack" where
  "initial_precisions emp_covs precisions_init =
     (case precisions_init of
        None \<Rightarrow>
          collect (map (\<lambda>E. if \<exists>x\<in>set (diagonal E). x = 0 then Inl NonFinite
                            else Inr (diag_matrix (map (\<lambda>x. 1 / x) (diagonal E)))) emp_covs)
      | Some init \<Rightarrow> Inr init)"

text \<open>Lines 319-347: the submatrices \<open>W\<close> and their inverses \<open>Winv\<close> for the excluded
  index \<open>p\<close>.\<close>

definition maintain ::
  "lib \<Rightarrow> nat \<Rightarrow> nat \<Rightarrow> stack \<Rightarrow> stack \<times> stack \<Rightarrow> error + (stack \<times> stack)"
where
  "maintain L n_tasks p omega WW =
     (if p = 0 then
        (let W = map (submatrix 0) omega
         in case collect (map (\<lambda>M. case linalg_inv L M of None \<Rightarrow> Inl LinAlgError
                                                          | Some Mi \<Rightarrow> Inr Mi) W) of
              Inl e \<Rightarrow> Inl e
            | Inr Winv \<Rightarrow> Inr (W, Winv))
      else
        (case collect (map (\<lambda>k. update_submatrix (omega ! k) (fst WW ! k) (snd WW ! k) p)
                         [0..<n_tasks]) of
           Inl e \<Rightarrow> Inl e
         | Inr r \<Rightarrow> Inr (map fst r, map snd r)))"

text \<open>Lines 387-396: the root-find. The start value is 0, the budget 50 iterations,
  the tolerance \<^verbatim>\<open>1.5e-6\<close>.\<close>

definition root_find :: "real \<Rightarrow> vec \<Rightarrow> vec \<Rightarrow> error + real" where
  "root_find rho c q =
     (let cc = map2 (*) c c;
          two_ccq = map2 (\<lambda>a b. 2 * a * b) cc q
      in newton (\<lambda>a. quad_trust_region a q two_ccq cc (rho\<^sup>2)) 0
           (\<lambda>a. quad_trust_region_deriv a q two_ccq cc (rho\<^sup>2)) 50 (15 / 10 ^ 7))"

text \<open>Lines 357-408: the update of coordinate \<open>m\<close> of \<open>y\<close> for the excluded row \<open>p\<close>.
  The state is \<open>y\<close> and the number of warnings emitted so far.\<close>

definition coordinate ::
  "real \<Rightarrow> nat \<Rightarrow> vec \<Rightarrow> stack \<Rightarrow> stack \<Rightarrow> mat \<Rightarrow> nat \<Rightarrow> nat \<Rightarrow> mat \<times> nat \<Rightarrow> error + (mat \<times> nat)"
where
  "coordinate rho n_tasks n_samples emp_covs Winv u p m s =
     (let y = fst s;
          h_12 = map (\<lambda>k. del m (col (Winv ! k) m)) [0..<n_tasks];
          y_1 = map (\<lambda>k. del m (y ! k)) [0..<n_tasks];
          c = map (\<lambda>k. - (n_samples ! k) *
                     (emp_covs ! k ! p ! p * dot (h_12 ! k) (y_1 ! k) + u ! k ! m)) [0..<n_tasks];
          c2 = sqrt (dot c c)
      in if c2 \<le> rho then Inr (set_col m (map (\<lambda>k. 0) [0..<n_tasks]) y, snd s)
         else
           (let q = map (\<lambda>k. n_samples ! k * emp_covs ! k ! p ! p * (Winv ! k ! m ! m)) [0..<n_tasks];
                cc = map2 (*) c c;
                two_ccq = map2 (\<lambda>a b. 2 * a * b) cc q
            in case root_find rho c q of
                 Inl e \<Rightarrow> Inl e
               | Inr alpha \<Rightarrow>
                   (case quad_trust_region alpha q two_ccq cc (rho\<^sup>2) of
                      None \<Rightarrow> Inl NonFinite
                    | Some remainder \<Rightarrow>
                        Inr (set_col m (map2 (\<lambda>ck qk. (alpha * ck) / (1 + alpha * qk)) c q) y,
                             if \<bar>remainder\<bar> > 1 / 10 then Suc (snd s) else snd s))))"

text \<open>Lines 410-418: \<open>y\<close> is copied back into row and column \<open>p\<close>, and the diagonal
  entry is recomputed.\<close>

definition write_back :: "nat \<Rightarrow> vec \<Rightarrow> real \<Rightarrow> mat \<Rightarrow> mat" where
  "write_back p y_k d omega_k = (set_col p (ins p d y_k) omega_k)[p := ins p d y_k]"

definition new_diagonal :: "real \<Rightarrow> vec \<Rightarrow> mat \<Rightarrow> real" where
  "new_diagonal v y_k Winv_k = 1 / v + dot (vecmat y_k Winv_k) y_k"

text \<open>The state carried from one excluded index to the next.\<close>

record sweep_state =
  cur_omega :: stack
  cur_W :: stack
  cur_Winv :: stack
  n_warned :: nat

text \<open>Lines 317-421: the body of the loop over \<open>p\<close>.\<close>

definition step_p ::
  "lib \<Rightarrow> real \<Rightarrow> nat \<Rightarrow> nat \<Rightarrow> vec \<Rightarrow> stack \<Rightarrow> nat \<Rightarrow> sweep_state \<Rightarrow> error + sweep_state"
where
  "step_p L rho n_tasks n_var n_samples emp_covs p s =
     (case maintain L n_tasks p (cur_omega s) (cur_W s, cur_Winv s) of
        Inl e \<Rightarrow> Inl e
      | Inr (W', Winv') \<Rightarrow>
          (let y = map (\<lambda>k. del p (col (cur_omega s ! k) p)) [0..<n_tasks];
               u = map (\<lambda>k. del p (col (emp_covs ! k) p)) [0..<n_tasks]
           in case for_loop (coordinate rho n_tasks n_samples emp_covs Winv' u p)
                     [0..<n_var - 1] (y, n_warned s) of
                Inl e \<Rightarrow> Inl e
              | Inr (y', w') \<Rightarrow>
                  if \<exists>k\<in>set [0..<n_tasks]. emp_covs ! k ! p ! p = 0 then Inl NonFinite
                  else Inr \<lparr>cur_omega = map (\<lambda>k. write_back p (y' ! k)
                                            (new_diagonal (emp_covs ! k ! p ! p) (y' ! k) (Winv' ! k))
                                            (cur_omega s ! k)) [0..<n_tasks],
                            cur_W = W', cur_Winv = Winv', n_warned = w'\<rparr>))"

text \<open>One full sweep over the variables.\<close>

definition sweep ::
  "lib \<Rightarrow> real \<Rightarrow> nat \<Rightarrow> nat \<Rightarrow> vec \<Rightarrow> stack \<Rightarrow> sweep_state \<Rightarrow> error + sweep_state"
where
  "sweep L rho n_tasks n_var n_samples emp_covs s =
     for_loop (step_p L rho n_tasks n_var n_samples emp_covs) [0..<n_var] s"

text \<open>What a call returns, and what it does besides: \<open>costs\<close> is returned only when
  \<^verbatim>\<open>return_costs\<close> is set; \<open>n_warnings\<close> counts the warnings emitted and \<open>n_sweeps\<close> the
  sweeps executed.\<close>

record result =
  covariances :: stack
  precisions :: stack
  costs :: "(real \<times> real) list option"
  n_warnings :: nat
  n_sweeps :: nat

text \<open>The state of the loop over sweeps (lines 312-432).\<close>

record driver_state =
  sw :: sweep_state
  cost_trace :: "(real \<times> real) list"
  sweeps_done :: nat

text \<open>Lines 312-432: \<open>iterations\<close> is what is left of \<^verbatim>\<open>range(max_iter)\<close>.\<close>

fun driver_loop ::
  "lib \<Rightarrow> real \<Rightarrow> real option \<Rightarrow> bool \<Rightarrow> nat \<Rightarrow> nat \<Rightarrow> vec \<Rightarrow> stack \<Rightarrow> nat \<Rightarrow> driver_state
     \<Rightarrow> error + driver_state"
where
  "driver_loop L rho tol return_costs n_tasks n_var n_samples emp_covs 0 d = Inr d"
| "driver_loop L rho tol return_costs n_tasks n_var n_samples emp_covs (Suc iterations) d =
     (case sweep L rho n_tasks n_var n_samples emp_covs (sw d) of
        Inl e \<Rightarrow> Inl e
      | Inr s' \<Rightarrow>
          (case (if return_costs \<or> tol \<noteq> None
                 then map_sum id Some
                        (group_sparse_covariance_costs L n_tasks n_var n_samples rho
                           (cur_omega s') emp_covs)
                 else Inr None) of
             Inl e \<Rightarrow> Inl e
           | Inr og \<Rightarrow>
               (let d' = \<lparr>sw = s',
                          cost_trace = (if return_costs then cost_trace d @ [the og]
                                        else cost_trace d),
                          sweeps_done = Suc (sweeps_done d)\<rparr>
                in if tol \<noteq> None \<and> snd (the og) < the tol then Inr d'
                   else driver_loop L rho tol return_costs n_tasks n_var n_samples emp_covs
                          iterations d')))"

text \<open>Lines 295-437: the preallocation of the workspace, whose shapes
  \<^verbatim>\<open>(n_tasks, n_var - 1)\<close> and \<^verbatim>\<open>(n_tasks, n_var - 2)\<close> must not be negative, the loop
  over sweeps and the return. \<open>max_iter\<close> is the number of elements of
  \<^verbatim>\<open>range(max_iter)\<close>; \<open>tol = None\<close> disables the convergence check. A \<open>rho\<close>
  that is \<^verbatim>\<open>nan\<close> or \<^verbatim>\<open>inf\<close> makes the first sweep compute with non-finite numbers.
  The sweeps are modelled for a start value \<open>omega0\<close> of the shape of \<open>emp_covs\<close>; what
  numpy does with a stack of another shape (broadcasting, index errors) is not.\<close>

definition optimize ::
  "lib \<Rightarrow> pyval \<Rightarrow> nat \<Rightarrow> real option \<Rightarrow> bool \<Rightarrow> nat \<Rightarrow> nat \<Rightarrow> vec \<Rightarrow> stack \<Rightarrow> stack
     \<Rightarrow> error + result"
where
  "optimize L rho max_iter tol return_costs n_tasks n_var n_samples emp_covs omega0 =
     (if n_var < 2 then Inl (ValueError NegativeDimensions)
      else
        (case finite_value rho of
           None \<Rightarrow> (if max_iter = 0
                    then Inr \<lparr>covariances = emp_covs, precisions = omega0,
                              costs = (if return_costs then Some [] else None),
                              n_warnings = 0, n_sweeps = 0\<rparr>
                    else Inl NonFinite)
         | Some r \<Rightarrow>
             (case driver_loop L r tol return_costs n_tasks n_var n_samples emp_covs max_iter
                     \<lparr>sw = \<lparr>cur_omega = omega0, cur_W = [], cur_Winv = [], n_warned = 0\<rparr>,
                      cost_trace = [], sweeps_done = 0\<rparr> of
                Inl e \<Rightarrow> Inl e
              | Inr d \<Rightarrow>
                  Inr \<lparr>covariances = emp_covs, precisions = cur_omega (sw d),
                       costs = (if return_costs then Some (cost_trace d) else None),
                       n_warnings = n_warned (sw d),
                       n_sweeps = sweeps_done d\<rparr>)))"

text \<open>Lines 201-437.\<close>

definition group_sparse_covariance ::
  "lib \<Rightarrow> mat list \<Rightarrow> pyval \<Rightarrow> nat \<Rightarrow> real option \<Rightarrow> bool \<Rightarrow> bool \<Rightarrow> stack option
     \<Rightarrow> error + result"
where
  "group_sparse_covariance L tasks rho max_iter tol assume_centered return_costs precisions_init =
     (if \<not> isinstance_int_float rho \<or> lt_zero rho then Inl (ValueError RhoNotPositive)
      else
        (case empirical_covariances L tasks assume_centered of
           Inl e \<Rightarrow> Inl e
         | Inr (emp_covs, n_samples, n_tasks, n_var) \<Rightarrow>
             (case initial_precisions emp_covs precisions_init of
                Inl e \<Rightarrow> Inl e
              | Inr omega0 \<Rightarrow>
                  optimize L rho max_iter tol return_costs n_tasks n_var n_samples emp_covs
                    omega0)))"

section \<open>Notions the properties are stated with\<close>

text \<open>An array of shape \<open>(r, c)\<close>; a stack of shape \<open>(n, n, n_tasks)\<close>.\<close>

definition is_mat :: "nat \<Rightarrow> nat \<Rightarrow> mat \<Rightarrow> bool" where
  "is_mat r c A \<longleftrightarrow> length A = r \<and> (\<forall>row\<in>set A. length row = c)"

definition is_stack :: "nat \<Rightarrow> nat \<Rightarrow> stack \<Rightarrow> bool" where
  "is_stack n n_tasks S \<longleftrightarrow> length S = n_tasks \<and> (\<forall>A\<in>set S. is_mat n n A)"

text \<open>The index in \<open>xs\<close> of entry \<open>i\<close> of \<open>del p xs\<close>.\<close>

definition skip :: "nat \<Rightarrow> nat \<Rightarrow> nat" where
  "skip p i = (if i < p then i else Suc i)"

text \<open>The matrix product, the identity, and \<open>B\<close> being the inverse of the
  \<open>n \<times> n\<close> matrix \<open>A\<close> (on both sides).\<close>

definition kron :: "nat \<Rightarrow> nat \<Rightarrow> real" where
  "kron i j = (if i = j then 1 else 0)"

definition mat_mul :: "mat \<Rightarrow> mat \<Rightarrow> mat" where
  "mat_mul A B = map (\<lambda>r. vecmat r B) A"

definition identity_mat :: "nat \<Rightarrow> mat" where
  "identity_mat n = map (\<lambda>i. map (\<lambda>j. kron i j) [0..<n]) [0..<n]"

definition is_inverse :: "nat \<Rightarrow> mat \<Rightarrow> mat \<Rightarrow> bool" where
  "is_inverse n A B \<longleftrightarrow>
     is_mat n n A \<and> is_mat n n B \<and> mat_mul A B = identity_mat n \<and> mat_mul B A = identity_mat n"

text \<open>Symmetric and positive definite \<open>n \<times> n\<close> matrices: \<open>x\<^sup>T A x > 0\<close> for every
  vector \<open>x\<close> that is not zero.\<close>

definition symmetric_mat :: "nat \<Rightarrow> mat \<Rightarrow> bool" where
  "symmetric_mat n A \<longleftrightarrow> is_mat n n A \<and> (\<forall>i<n. \<forall>j<n. A ! i ! j = A ! j ! i)"

definition quad_form :: "mat \<Rightarrow> vec \<Rightarrow> real" where
  "quad_form A x = dot x (matvec A x)"

definition pos_def :: "nat \<Rightarrow> mat \<Rightarrow> bool" where
  "pos_def n A \<longleftrightarrow> (\<forall>x. length x = n \<and> (\<exists>i<n. x ! i \<noteq> 0) \<longrightarrow> 0 < quad_form A x)"

definition spd :: "nat \<Rightarrow> mat \<Rightarrow> bool" where
  "spd n A \<longleftrightarrow> symmetric_mat n A \<and> pos_def n A"

text \<open>A stack of \<open>n_tasks\<close> symmetric positive definite \<open>n \<times> n\<close> matrices.\<close>

definition spd_stack :: "nat \<Rightarrow> nat \<Rightarrow> stack \<Rightarrow> bool" where
  "spd_stack n n_tasks S \<longleftrightarrow> length S = n_tasks \<and> (\<forall>A\<in>set S. spd n A)"

text \<open>The invariant of the active submatrix state for the excluded index \<open>q\<close>: for
  each task, \<open>W\<close> is the precision matrix without row and column \<open>q\<close>, and \<open>Winv\<close> is
  the inverse of \<open>W\<close>.\<close>

definition maintained :: "nat \<Rightarrow> nat \<Rightarrow> nat \<Rightarrow> sweep_state \<Rightarrow> bool" where
  "maintained n n_tasks q s \<longleftrightarrow>
     length (cur_W s) = n_tasks \<and> length (cur_Winv s) = n_tasks \<and>
     (\<forall>k<n_tasks. cur_W s ! k = submatrix q (cur_omega s ! k)
                  \<and> is_inverse (n - 1) (cur_W s ! k) (cur_Winv s ! k))"

text \<open>What is assumed of the dense inverse of the library: a matrix it returns is the
  inverse of its argument. And of the empirical covariances: their diagonals (the
  variances) are positive.\<close>

definition inv_correct :: "lib \<Rightarrow> bool" where
  "inv_correct L \<longleftrightarrow> (\<forall>A B. linalg_inv L A = Some B \<longrightarrow> is_inverse (length A) A B)"

definition positive_diagonals :: "nat \<Rightarrow> stack \<Rightarrow> bool" where
  "positive_diagonals n E \<longleftrightarrow> (\<forall>A\<in>set E. \<forall>i<n. 0 < A ! i ! i)"

text \<open>The coefficients of the coordinate subproblem for the excluded row \<open>p\<close> and the
  coordinate \<open>m\<close>, in the words of the specification (4.3):
  \<open>c(k) = - n_samples(k) * (emp_cov(k)[p,p] * <h12(k), y1(k)> + u(k)[m])\<close>, where \<open>h12(k)\<close>
  is column \<open>m\<close> of the submatrix inverse without its entry \<open>m\<close> and \<open>y1(k)\<close> is \<open>y(k)\<close>
  without its entry \<open>m\<close>, and \<open>q(k) = n_samples(k) * emp_cov(k)[p,p] * Winv(k)[m,m]\<close>.\<close>

definition coord_c :: "vec \<Rightarrow> stack \<Rightarrow> stack \<Rightarrow> mat \<Rightarrow> mat \<Rightarrow> nat \<Rightarrow> nat \<Rightarrow> nat \<Rightarrow> real" where
  "coord_c n_samples emp_covs Winv y u p m k =
     - (n_samples ! k) * (emp_covs ! k ! p ! p * dot (del m (col (Winv ! k) m)) (del m (y ! k))
                          + u ! k ! m)"

definition coord_q :: "vec \<Rightarrow> stack \<Rightarrow> stack \<Rightarrow> nat \<Rightarrow> nat \<Rightarrow> nat \<Rightarrow> real" where
  "coord_q n_samples emp_covs Winv p m k = n_samples ! k * emp_covs ! k ! p ! p * (Winv ! k ! m ! m)"

text \<open>\<open>g(alpha) = rho\<^sup>2 - \<Sum>\<^sub>k c(k)\<^sup>2 / (1 + alpha * q(k))\<^sup>2\<close>, and the Euclidean norm of
  \<open>c\<close>.\<close>

definition trust_region_g :: "real \<Rightarrow> vec \<Rightarrow> vec \<Rightarrow> real \<Rightarrow> real" where
  "trust_region_g rho c q alpha = rho\<^sup>2 - (\<Sum>k<length c. (c ! k)\<^sup>2 / (1 + alpha * q ! k)\<^sup>2)"

definition norm2 :: "vec \<Rightarrow> real" where
  "norm2 c = sqrt (\<Sum>k<length c. (c ! k)\<^sup>2)"

text \<open>The \<open>j\<close>-th Newton-Raphson iterate from \<open>x\<close>.\<close>

fun newton_iterate :: "(real \<Rightarrow> real option) \<Rightarrow> (real \<Rightarrow> real option) \<Rightarrow> nat \<Rightarrow> real \<Rightarrow> real" where
  "newton_iterate func fprime 0 x = x"
| "newton_iterate func fprime (Suc j) x =
     newton_iterate func fprime j (x - the (func x) / the (fprime x))"

text \<open>\<open>j\<close> sweeps in a row, with no cost evaluation in between: the state at the
  \<open>j\<close>-th sweep boundary.\<close>

fun run_sweeps ::
  "lib \<Rightarrow> real \<Rightarrow> nat \<Rightarrow> nat \<Rightarrow> vec \<Rightarrow> stack \<Rightarrow> nat \<Rightarrow> sweep_state \<Rightarrow> error + sweep_state"
where
  "run_sweeps L rho n_tasks n_var n_samples emp_covs 0 s = Inr s"
| "run_sweeps L rho n_tasks n_var n_samples emp_covs (Suc j) s =
     (case sweep L rho n_tasks n_var n_samples emp_covs s of
        Inl e \<Rightarrow> Inl e
      | Inr s' \<Rightarrow> run_sweeps L rho n_tasks n_var n_samples emp_covs j s')"

text \<open>The duality gap of a precision stack, when the cost evaluator returns one.\<close>

definition duality_gap ::
  "lib \<Rightarrow> nat \<Rightarrow> nat \<Rightarrow> vec \<Rightarrow> real \<Rightarrow> stack \<Rightarrow> stack \<Rightarrow> real option"
where
  "duality_gap L n_tasks n_var n_samples rho om emp_covs =
     (case group_sparse_covariance_costs L n_tasks n_var n_samples rho om emp_covs of
        Inl e \<Rightarrow> None
      | Inr cg \<Rightarrow> Some (snd cg))"

text \<open>A list over the \<open>n\<close> tasks (a stack, the sample counts, the columns of a
  workspace) whose entries are the same for every task.\<close>

definition same_across_tasks :: "nat \<Rightarrow> 'a list \<Rightarrow> bool" where
  "same_across_tasks n S \<longleftrightarrow> length S = n \<and> (\<forall>k<n. S ! k = S ! 0)"

section \<open>An instance of the library on small matrices\<close>

text \<open>Concrete runs need concrete library routines. These are the textbook ones, on
  matrices of one or two rows: the covariance of centred samples \<open>X\<^sup>T X / n\<close>, the
  inverse by the adjugate, the logarithm of the determinant, and Sylvester's criterion
  for a symmetric matrix.\<close>

definition gram_covariance :: "mat \<Rightarrow> bool \<Rightarrow> mat" where
  "gram_covariance X assume_centered =
     map (\<lambda>i. map (\<lambda>j. dot (col X i) (col X j) / real (length X)) [0..<shape1 X])
       [0..<shape1 X]"

fun small_inv :: "mat \<Rightarrow> mat option" where
  "small_inv [[a]] = (if a = 0 then None else Some [[1 / a]])"
| "small_inv [[a, b], [c, d]] =
     (if a * d - b * c = 0 then None
      else Some [[d / (a * d - b * c), - b / (a * d - b * c)],
                 [- c / (a * d - b * c), a / (a * d - b * c)]])"
| "small_inv M = None"

fun small_logdet :: "mat \<Rightarrow> real" where
  "small_logdet [[a]] = ln a"
| "small_logdet [[a, b], [c, d]] = ln (a * d - b * c)"
| "small_logdet M = 0"

fun small_is_spd :: "mat \<Rightarrow> bool" where
  "small_is_spd [[a]] = (0 < a)"
| "small_is_spd [[a, b], [c, d]] = (b = c \<and> 0 < a \<and> 0 < a * d - b * c)"
| "small_is_spd M = False"

definition small_lib :: lib where
  "small_lib = \<lparr>empirical_covariance = gram_covariance, linalg_inv = small_inv,
                 fast_logdet = small_logdet, is_spd = small_is_spd\<rparr>"

chapter \<open>Properties\<close>

section \<open>Shapes and entries\<close>

lemma is_mat_nth: "is_mat r c A \<Longrightarrow> i < r \<Longrightarrow> length (A ! i) = c"
  by (simp add: is_mat_def)

lemma is_mat_length: "is_mat r c A \<Longrightarrow> length A = r"
  by (simp add: is_mat_def)

lemma is_matI: "length A = r \<Longrightarrow> (\<And>i. i < r \<Longrightarrow> length (A ! i) = c) \<Longrightarrow> is_mat r c A"
  by (auto simp: is_mat_def in_set_conv_nth)

lemma shape1_is_mat: "is_mat r c A \<Longrightarrow> 0 < r \<Longrightarrow> shape1 A = c"
  by (cases A) (auto simp: shape1_def is_mat_def)

lemma length_col [simp]: "length (col A j) = length A"
  by (simp add: col_def)

lemma nth_col [simp]: "i < length A \<Longrightarrow> col A j ! i = A ! i ! j"
  by (simp add: col_def)

section \<open>Which errors a function can raise\<close>

lemma collect_Inl: "collect xs = Inl e \<Longrightarrow> Inl e \<in> set xs"
  by (induction xs) (auto split: sum.splits)

lemma collect_Inr_length: "collect xs = Inr ys \<Longrightarrow> length ys = length xs"
  by (induction xs arbitrary: ys) (auto split: sum.splits)

lemma collect_Inr_nth: "collect xs = Inr ys \<Longrightarrow> i < length xs \<Longrightarrow> xs ! i = Inr (ys ! i)"
proof (induction xs arbitrary: ys i)
  case Nil
  then show ?case by simp
next
  case (Cons x xs)
  then show ?case by (cases i) (auto split: sum.splits)
qed

lemma for_loop_Inl:
  "for_loop body js s = Inl e \<Longrightarrow> \<exists>j\<in>set js. \<exists>s'. body j s' = Inl e"
  by (induction js arbitrary: s) (auto split: sum.splits)

lemma update_submatrix_error: "update_submatrix full sub sub_inv p = Inl e \<Longrightarrow> e = NonFinite"
  by (auto simp: update_submatrix_def Let_def split: prod.splits if_splits)

lemma maintain_error:
  "maintain L n_tasks p om WW = Inl e \<Longrightarrow> e = LinAlgError \<or> e = NonFinite"
  by (auto simp: maintain_def Let_def split: if_splits sum.splits option.splits
      dest!: collect_Inl dest: update_submatrix_error[OF sym])

lemma newton_loop_error:
  "newton_loop func fprime tol n p0 = Inl e \<Longrightarrow> e = RuntimeError \<or> e = NonFinite"
  by (induction n arbitrary: p0) (auto simp: Let_def split: option.splits if_splits)

lemma coordinate_error:
  "coordinate rho n_tasks n_samples emp_covs Winv u p m s = Inl e
   \<Longrightarrow> e = RuntimeError \<or> e = NonFinite"
  by (auto simp: coordinate_def root_find_def newton_def Let_def
      split: if_splits sum.splits option.splits dest: newton_loop_error)

lemma step_p_error:
  "step_p L rho n_tasks n_var n_samples emp_covs p s = Inl e
   \<Longrightarrow> e = LinAlgError \<or> e = NonFinite \<or> e = RuntimeError"
  by (auto simp: step_p_def Let_def split: if_splits sum.splits prod.splits
      dest: maintain_error dest!: for_loop_Inl dest: coordinate_error)

lemma sweep_error:
  "sweep L rho n_tasks n_var n_samples emp_covs s = Inl e
   \<Longrightarrow> e = LinAlgError \<or> e = NonFinite \<or> e = RuntimeError"
  unfolding sweep_def by (auto dest!: for_loop_Inl dest: step_p_error)

lemma dual_point_error:
  "dual_point L n_k omega_k emp_k = Inl e \<Longrightarrow> e = LinAlgError \<or> e = AssertionError"
  by (auto simp: dual_point_def split: option.splits if_splits)

lemma costs_error:
  "group_sparse_covariance_costs L n_tasks n_var n_samples rho om emp_covs = Inl e
   \<Longrightarrow> e = LinAlgError \<or> e = AssertionError \<or> e = NonFinite"
  by (auto simp: group_sparse_covariance_costs_def Let_def split: sum.splits if_splits
      dest!: collect_Inl dest: dual_point_error[OF sym])

lemma map_sum_id_Inl: "map_sum id f x = Inl e \<Longrightarrow> x = Inl e"
  by (cases x) auto

lemma driver_loop_error:
  "driver_loop L rho tol rc n_tasks n_var n_samples emp_covs n d = Inl e
   \<Longrightarrow> e = LinAlgError \<or> e = NonFinite \<or> e = RuntimeError \<or> e = AssertionError"
proof (induction n arbitrary: d)
  case 0
  then show ?case by simp
next
  case (Suc n)
  then show ?case
    by (auto simp: Let_def split: sum.splits if_splits dest: sweep_error
        dest!: map_sum_id_Inl dest: costs_error)
qed

lemma optimize_error:
  "optimize L rho max_iter tol rc n_tasks n_var n_samples emp_covs omega0 = Inl e
   \<Longrightarrow> e = ValueError NegativeDimensions \<or> e = LinAlgError \<or> e = NonFinite
       \<or> e = RuntimeError \<or> e = AssertionError"
  by (auto simp: optimize_def split: if_splits option.splits sum.splits
      dest: driver_loop_error)

lemma initial_precisions_error: "initial_precisions emp_covs pinit = Inl e \<Longrightarrow> e = NonFinite"
  by (auto simp: initial_precisions_def split: option.splits if_splits dest!: collect_Inl)

lemma empirical_covariances_error:
  "empirical_covariances L tasks ac = Inl e
   \<Longrightarrow> e = ValueError FeatureCountMismatch \<or> e = IndexError \<or> e = NonFinite"
  by (auto simp: empirical_covariances_def Let_def split: if_splits list.splits)

lemma collect_map_Inr:
  "(\<forall>x\<in>set xs. g x = Inr (f x)) \<Longrightarrow> collect (map g xs) = Inr (map f xs)"
  by (induction xs) auto

section \<open>A concrete input\<close>

lemmas eval_arrays = del_def ins_def col_def set_col_def dot_def vecmat_def matvec_def outer_def
  vec_sub_def mat_sub_def mat_add_def transpose_arr_def diagonal_def diag_matrix_def
  submatrix_def shape1_def

lemma upt_0_SS: "[0..<Suc (Suc 0)] = [0, Suc 0]" by (simp add: upt_rec)
lemma upt_0_1: "[0..<1] = [0]" by (simp add: upt_rec)
lemma upt_0_2: "[0..<2] = [0, Suc 0]" by (simp add: upt_rec)
lemma upt_0_3: "[0..<3] = [0, 1, 2]" by (simp add: upt_rec)

text \<open>One task of two centred samples of two variables; its covariance is the identity,
  and the identity is a fixed point of a sweep with \<open>rho = 1\<close>.\<close>

lemma two_samples_covariance:
  "empirical_covariances small_lib [[[1, 1], [1, -1]]] True
     = Inr ([[[1, 0], [0, 1]]], [1], Suc 0, 2)"
  by (simp add: empirical_covariances_def small_lib_def gram_covariance_def shape1_def
      symmetrize_def mat_add_def transpose_arr_def col_def dot_def
      upt_rec[of 0] upt_rec[of 1] upt_rec[of 2])

lemma identity_step_0:
  "step_p small_lib 1 (Suc 0) 2 [1] [[[1, 0], [0, 1]]] 0
      \<lparr>cur_omega = [[[1, 0], [0, 1]]], cur_W = w, cur_Winv = wi, n_warned = 0\<rparr>
   = Inr \<lparr>cur_omega = [[[1, 0], [0, 1]]], cur_W = [[[1]]], cur_Winv = [[[1]]], n_warned = 0\<rparr>"
  by (simp add: step_p_def maintain_def small_lib_def eval_arrays upt_0_1 upt_0_2 coordinate_def
      write_back_def new_diagonal_def Let_def)

lemma identity_step_1:
  "step_p small_lib 1 (Suc 0) 2 [1] [[[1, 0], [0, 1]]] (Suc 0)
      \<lparr>cur_omega = [[[1, 0], [0, 1]]], cur_W = [[[1]]], cur_Winv = [[[1]]], n_warned = 0\<rparr>
   = Inr \<lparr>cur_omega = [[[1, 0], [0, 1]]], cur_W = [[[1]]], cur_Winv = [[[1]]], n_warned = 0\<rparr>"
  by (simp add: step_p_def maintain_def update_submatrix_def update_vectors_def
      small_lib_def eval_arrays upt_0_1 upt_0_2 coordinate_def
      write_back_def new_diagonal_def Let_def)

lemma identity_sweep:
  "sweep small_lib 1 (Suc 0) 2 [1] [[[1, 0], [0, 1]]]
      \<lparr>cur_omega = [[[1, 0], [0, 1]]], cur_W = w, cur_Winv = wi, n_warned = 0\<rparr>
   = Inr \<lparr>cur_omega = [[[1, 0], [0, 1]]], cur_W = [[[1]]], cur_Winv = [[[1]]], n_warned = 0\<rparr>"
  by (simp add: sweep_def upt_0_2 identity_step_0 identity_step_1)

lemma identity_run_sweeps:
  "run_sweeps small_lib 1 (Suc 0) 2 [1] [[[1, 0], [0, 1]]] (Suc j)
      \<lparr>cur_omega = [[[1, 0], [0, 1]]], cur_W = w, cur_Winv = wi, n_warned = 0\<rparr>
   = Inr \<lparr>cur_omega = [[[1, 0], [0, 1]]], cur_W = [[[1]]], cur_Winv = [[[1]]], n_warned = 0\<rparr>"
  by (induction j arbitrary: w wi) (simp_all add: identity_sweep)

lemma identity_costs:
  "group_sparse_covariance_costs small_lib (Suc 0) 2 [1] 1 [[[1, 0], [0, 1]]] [[[1, 0], [0, 1]]]
    = Inr (2, 0)"
  by (simp add: group_sparse_covariance_costs_def small_lib_def dual_point_def group_norms_def
     scalar_product_def project_def eval_arrays upt_0_1 upt_0_2 Let_def)

lemma diagonal_2: "diagonal [[a, b], [c, d]] = [a, d]"
  by (simp add: diagonal_def upt_0_SS)

lemma diag_matrix_2: "diag_matrix [a, d] = [[a, 0], [0, d]]"
  by (simp add: diag_matrix_def upt_0_SS)

lemma identity_initial:
  "initial_precisions [[[1, 0], [0, 1]]] None = Inr [[[1, 0], [0, 1]]]"
  by (simp add: initial_precisions_def diagonal_2 diag_matrix_2)

section \<open>Validation of the arguments\<close>

text \<open>
  C5 (as amended). The check of line 276 is the first thing \<open>group_sparse_covariance\<close>
  does, and it is the only place that raises the error of line 277: whatever the other
  arguments are, the call raises it exactly when \<open>rho\<close> is not an int or a float, or is
  a number below zero (\<^verbatim>\<open>-inf\<close> included). Every finite number that is not negative
  passes, and so do \<^verbatim>\<open>nan\<close> and \<^verbatim>\<open>+inf\<close>.
\<close>

theorem rho_validation:
  "group_sparse_covariance L tasks rho max_iter tol ac rc pinit = Inl (ValueError RhoNotPositive)
   \<longleftrightarrow> (case rho of
          PyInt i \<Rightarrow> i < 0
        | PyFloat f \<Rightarrow>
            (case f of Finite r \<Rightarrow> r < 0 | NegInf \<Rightarrow> True | PosInf \<Rightarrow> False | NaN \<Rightarrow> False)
        | PyStr s \<Rightarrow> True
        | PyNone \<Rightarrow> True)"
  by (auto simp add: group_sparse_covariance_def
      split: pyval.splits pyfloat.splits sum.splits prod.splits option.splits if_splits
      dest: empirical_covariances_error initial_precisions_error optimize_error)

theorem rho_validation_witness:
  "group_sparse_covariance small_lib [[[1, 1], [1, -1]]] (PyFloat (Finite (-1))) 1 None True False
     None = Inl (ValueError RhoNotPositive)
   \<and> group_sparse_covariance small_lib [[[1, 1], [1, -1]]] (PyFloat (Finite 0)) 1 None True False
     None \<noteq> Inl (ValueError RhoNotPositive)"
  using rho_validation [of small_lib "[[[1, 1], [1, -1]]]" "PyFloat (Finite (-1))" 1 None True False None]
    rho_validation [of small_lib "[[[1, 1], [1, -1]]]" "PyFloat (Finite 0)" 1 None True False None]
  by simp

text \<open>C5, the claim as stated fails: \<^verbatim>\<open>rho = nan\<close> is not a finite number, and no
  validation error is raised; the first sweep computes with it.\<close>

theorem rho_nan_counterexample:
  "group_sparse_covariance small_lib [[[1, 1], [1, -1]]] (PyFloat NaN) 1 None True False None
     = Inl NonFinite"
  by (simp add: group_sparse_covariance_def two_samples_covariance initial_precisions_def
      optimize_def diagonal_def diag_matrix_def upt_rec[of 0] upt_rec[of 1] upt_rec[of 2])

text \<open>
  C6 (as amended). The shape of a warm start is not validated. A supplied stack is
  copied and is the start value of the optimisation whatever its shape; when none is
  supplied, the start value is, for each task, the diagonal matrix of the inverses of
  the diagonal of the empirical covariance.
\<close>

theorem warm_start_used:
  assumes "isinstance_int_float rho" and "\<not> lt_zero rho"
    and "empirical_covariances L tasks ac = Inr (emp_covs, n_samples, n_tasks, n_var)"
  shows "group_sparse_covariance L tasks rho max_iter tol ac rc (Some init)
           = optimize L rho max_iter tol rc n_tasks n_var n_samples emp_covs init
       \<and> ((\<forall>E\<in>set emp_covs. 0 \<notin> set (diagonal E)) \<longrightarrow>
            group_sparse_covariance L tasks rho max_iter tol ac rc None
              = optimize L rho max_iter tol rc n_tasks n_var n_samples emp_covs
                  (map (\<lambda>E. diag_matrix (map (\<lambda>x. 1 / x) (diagonal E))) emp_covs))"
proof -
  have "(\<forall>E\<in>set emp_covs. 0 \<notin> set (diagonal E)) \<Longrightarrow>
        initial_precisions emp_covs None
          = Inr (map (\<lambda>E. diag_matrix (map (\<lambda>x. 1 / x) (diagonal E))) emp_covs)"
    unfolding initial_precisions_def by (simp add: collect_map_Inr)
  with assms show ?thesis
    by (simp add: group_sparse_covariance_def initial_precisions_def)
qed

theorem warm_start_used_witness:
  "group_sparse_covariance small_lib [[[1, 1], [1, -1]]] (PyInt 1) 1 None True False
       (Some [[[2, 0], [0, 2]]])
     = optimize small_lib (PyInt 1) 1 None False 1 2 [1] [[[1, 0], [0, 1]]] [[[2, 0], [0, 2]]]
   \<and> group_sparse_covariance small_lib [[[1, 1], [1, -1]]] (PyInt 1) 1 None True False None
     = optimize small_lib (PyInt 1) 1 None False 1 2 [1] [[[1, 0], [0, 1]]] [[[1, 0], [0, 1]]]"
  using warm_start_used [of "PyInt 1" small_lib "[[[1, 1], [1, -1]]]" True "[[[1, 0], [0, 1]]]" "[1]"
       "Suc 0" 2
       1 None False "[[[2, 0], [0, 2]]]"]
  by (simp add: two_samples_covariance diagonal_2 diag_matrix_2)

text \<open>C6, the claim as stated fails: the empirical covariances have shape \<open>(2, 2, 1)\<close>,
  the warm start has shape \<open>(1, 1, 1)\<close>, and the call returns it.\<close>

theorem warm_start_counterexample:
  "group_sparse_covariance small_lib [[[1, 1], [1, -1]]] (PyInt 1) 0 None True False (Some [[[7]]])
     = Inr \<lparr>covariances = [[[1, 0], [0, 1]]], precisions = [[[7]]], costs = None,
            n_warnings = 0, n_sweeps = 0\<rparr>"
  by (simp add: group_sparse_covariance_def two_samples_covariance initial_precisions_def
      optimize_def)


section \<open>The empirical covariance builder\<close>

lemma symmetrize_nth:
  assumes "is_mat n n M" and "i < n" and "j < n"
  shows "symmetrize M ! i ! j = (M ! i ! j + M ! j ! i) / 2"
proof -
  from assms have n: "0 < n" by simp
  have s: "shape1 M = n" using shape1_is_mat[OF assms(1) n] .
  have l: "length M = n" using assms(1) by (simp add: is_mat_def)
  have li: "length (M ! i) = n" using is_mat_nth[OF assms(1,2)] .
  show ?thesis
    using assms(2,3) by (simp add: symmetrize_def mat_add_def transpose_arr_def s l li)
qed

lemma is_mat_symmetrize:
  assumes "is_mat n n M"
  shows "is_mat n n (symmetrize M)"
proof (cases "n = 0")
  case True
  with assms show ?thesis by (simp add: is_mat_def symmetrize_def mat_add_def)
next
  case False
  then have s: "shape1 M = n" using shape1_is_mat[OF assms] by simp
  have l: "length M = n" using assms by (simp add: is_mat_def)
  show ?thesis
  proof (rule is_matI)
    show "length (symmetrize M) = n"
      by (simp add: symmetrize_def mat_add_def transpose_arr_def s l)
    fix i assume "i < n"
    then show "length (symmetrize M ! i) = n"
      using is_mat_nth[OF assms]
      by (simp add: symmetrize_def mat_add_def transpose_arr_def s l)
  qed
qed

lemma transpose_symmetrize:
  assumes "is_mat n n M"
  shows "transpose_arr (symmetrize M) = symmetrize M"
proof (cases "n = 0")
  case True
  with assms show ?thesis
    by (simp add: is_mat_def symmetrize_def mat_add_def transpose_arr_def shape1_def)
next
  case False
  note S = is_mat_symmetrize[OF assms]
  from False have s: "shape1 (symmetrize M) = n" using shape1_is_mat[OF S] by simp
  have l: "length (symmetrize M) = n" using S by (simp add: is_mat_def)
  show ?thesis
  proof (rule nth_equalityI)
    show "length (transpose_arr (symmetrize M)) = length (symmetrize M)"
      by (simp add: transpose_arr_def s l)
    fix i assume "i < length (transpose_arr (symmetrize M))"
    then have i: "i < n" by (simp add: transpose_arr_def s)
    show "transpose_arr (symmetrize M) ! i = symmetrize M ! i"
    proof (rule nth_equalityI)
      show "length (transpose_arr (symmetrize M) ! i) = length (symmetrize M ! i)"
        using i is_mat_nth[OF S i] by (simp add: transpose_arr_def s l)
      fix j assume "j < length (transpose_arr (symmetrize M) ! i)"
      then have j: "j < n" using i by (simp add: transpose_arr_def s l)
      show "transpose_arr (symmetrize M) ! i ! j = symmetrize M ! i ! j"
        using i j by (simp add: transpose_arr_def s l symmetrize_nth[OF assms] add.commute)
    qed
  qed
qed

lemma sum_list_divide: "sum_list (map (\<lambda>x. x / c) xs) = sum_list xs / (c::real)"
  by (induction xs) (simp_all add: add_divide_distrib)

lemma remdups_all_equal: "\<forall>x\<in>set xs. x = a \<Longrightarrow> length (remdups xs) \<le> 1"
proof -
  assume "\<forall>x\<in>set xs. x = a"
  then have "set xs \<subseteq> {a}" by auto
  then have "card (set xs) \<le> card {a}" by (intro card_mono) auto
  then show ?thesis by (simp add: length_remdups_card_conv)
qed

lemma sum_list_samples_pos:
  "tasks \<noteq> [] \<Longrightarrow> \<forall>s\<in>set tasks. s \<noteq> [] \<Longrightarrow> 0 < (\<Sum>s\<leftarrow>tasks. real (length s))"
proof (induction tasks)
  case Nil
  then show ?case by simp
next
  case (Cons t ts)
  have a: "0 \<le> (\<Sum>s\<leftarrow>ts. real (length s))" by (rule sum_list_nonneg) auto
  from Cons.prems have "0 < length t" by simp
  then have b: "0 < real (length t)" by simp
  have "0 < real (length t) + (\<Sum>s\<leftarrow>ts. real (length s))"
    using b a by (rule add_pos_nonneg)
  then show ?case by simp
qed

text \<open>
  C8. For a non-empty sequence of tasks that have at least one sample each and the same
  number \<open>n_var\<close> of features (the covariance estimator of the library returning an
  \<open>n_var \<times> n_var\<close> matrix \<open>M\<close> for each), \<open>empirical_covariances\<close> returns. Each
  matrix of the stack is \<open>(M + M\<^sup>T) / 2\<close>, and so equals its own transpose; each weight
  is the sample count of its task divided by the total sample count, and the weights
  sum to one.
\<close>

theorem empirical_covariances_post:
  assumes "tasks \<noteq> []"
    and "\<forall>s\<in>set tasks. s \<noteq> [] \<and> shape1 s = n_var"
    and "\<forall>s\<in>set tasks. is_mat n_var n_var (empirical_covariance L s ac)"
  shows "\<exists>emp_covs n_samples.
           empirical_covariances L tasks ac = Inr (emp_covs, n_samples, length tasks, n_var)
         \<and> length emp_covs = length tasks \<and> length n_samples = length tasks
         \<and> (\<forall>k<length tasks.
               is_mat n_var n_var (emp_covs ! k)
             \<and> (\<forall>i<n_var. \<forall>j<n_var. emp_covs ! k ! i ! j
                   = (empirical_covariance L (tasks ! k) ac ! i ! j
                      + empirical_covariance L (tasks ! k) ac ! j ! i) / 2)
             \<and> transpose_arr (emp_covs ! k) = emp_covs ! k)
         \<and> sum_list n_samples = 1
         \<and> (\<forall>k<length tasks.
               n_samples ! k = real (length (tasks ! k)) / (\<Sum>s\<leftarrow>tasks. real (length s)))"
proof -
  let ?total = "\<Sum>s\<leftarrow>tasks. real (length s)"
  let ?emp = "map (\<lambda>s. symmetrize (empirical_covariance L s ac)) tasks"
  let ?ns = "map (\<lambda>x. x / ?total) (map (\<lambda>s. real (length s)) tasks)"
  have pos: "0 < ?total" using sum_list_samples_pos assms(1,2) by blast
  have rd: "\<not> 1 < length (remdups (map shape1 tasks))"
    using remdups_all_equal[of "map shape1 tasks" n_var] assms(2) by auto
  obtain t0 ts where ts: "tasks = t0 # ts" using assms(1) by (cases tasks) auto
  then have nv: "shape1 t0 = n_var" using assms(2) by simp
  have eq: "empirical_covariances L tasks ac = Inr (?emp, ?ns, length tasks, n_var)"
    using rd pos nv unfolding empirical_covariances_def Let_def ts by (simp add: comp_def)
  have "sum_list ?ns = ?total / ?total"
    by (rule sum_list_divide)
  then have sum1: "sum_list ?ns = 1"
    using pos by simp
  have mats: "\<forall>k<length tasks.
               is_mat n_var n_var (?emp ! k)
             \<and> (\<forall>i<n_var. \<forall>j<n_var. ?emp ! k ! i ! j
                   = (empirical_covariance L (tasks ! k) ac ! i ! j
                      + empirical_covariance L (tasks ! k) ac ! j ! i) / 2)
             \<and> transpose_arr (?emp ! k) = ?emp ! k"
  proof (intro allI impI)
    fix k assume k: "k < length tasks"
    then have m: "is_mat n_var n_var (empirical_covariance L (tasks ! k) ac)"
      using assms(3) by simp
    show "is_mat n_var n_var (?emp ! k)
             \<and> (\<forall>i<n_var. \<forall>j<n_var. ?emp ! k ! i ! j
                   = (empirical_covariance L (tasks ! k) ac ! i ! j
                      + empirical_covariance L (tasks ! k) ac ! j ! i) / 2)
             \<and> transpose_arr (?emp ! k) = ?emp ! k"
      using k is_mat_symmetrize[OF m] transpose_symmetrize[OF m] symmetrize_nth[OF m]
      by simp
  qed
  have ns: "\<forall>k<length tasks. ?ns ! k = real (length (tasks ! k)) / ?total"
    by simp
  show ?thesis
    apply (rule exI[of _ ?emp], rule exI[of _ ?ns])
    using eq sum1 mats ns by simp
qed


theorem empirical_covariances_post_witness:
  "\<exists>emp_covs n_samples.
     empirical_covariances small_lib [[[1, 1], [1, -1]], [[1, 0], [0, 1], [2, 2]]] True
       = Inr (emp_covs, n_samples, 2, 2)
     \<and> transpose_arr (emp_covs ! 1) = emp_covs ! 1
     \<and> sum_list n_samples = 1
     \<and> n_samples ! 1 = 3 / 5"
proof -
  let ?T = "[[[1, 1], [1, -1]], [[1, 0], [0, 1], [2, 2]]] :: mat list"
  have h1: "?T \<noteq> []" by simp
  have h2: "\<forall>s\<in>set ?T. s \<noteq> [] \<and> shape1 s = 2" by (simp add: shape1_def)
  have h3: "\<forall>s\<in>set ?T. is_mat 2 2 (empirical_covariance small_lib s True)"
    by (simp add: small_lib_def gram_covariance_def shape1_def is_mat_def upt_0_2)
  from empirical_covariances_post [OF h1 h2 h3] obtain emp_covs n_samples where
    r: "empirical_covariances small_lib ?T True = Inr (emp_covs, n_samples, length ?T, 2)"
    and t: "\<forall>k<length ?T. is_mat 2 2 (emp_covs ! k)
             \<and> (\<forall>i<2. \<forall>j<2. emp_covs ! k ! i ! j
                   = (empirical_covariance small_lib (?T ! k) True ! i ! j
                      + empirical_covariance small_lib (?T ! k) True ! j ! i) / 2)
             \<and> transpose_arr (emp_covs ! k) = emp_covs ! k"
    and s: "sum_list n_samples = 1"
    and w: "\<forall>k<length ?T. n_samples ! k = real (length (?T ! k)) / (\<Sum>s\<leftarrow>?T. real (length s))"
    by blast
  from t[rule_format, of 1] have "transpose_arr (emp_covs ! 1) = emp_covs ! 1" by simp
  moreover from w[rule_format, of 1] have "n_samples ! 1 = 3 / 5" by simp
  ultimately show ?thesis using r s by auto
qed

section \<open>Sums and the Sherman-Morrison identity\<close>

text \<open>The identity on functions of two indices: if \<open>b\<close> is the inverse of \<open>a\<close> and
  row \<open>r\<close> of \<open>a\<close> is replaced by \<open>h\<close>, the inverse is \<open>b\<close> minus a rank-one
  correction, provided the denominator \<open>d\<close> is not zero.\<close>

lemma sum_kron_left: "j < n \<Longrightarrow> (\<Sum>k<n. kron j k * f k) = f j"
proof -
  assume j: "j < n"
  have "(\<Sum>k<n. kron j k * f k) = (\<Sum>k<n. if k = j then f k else 0)"
    by (intro sum.cong) (auto simp: kron_def)
  also have "\<dots> = f j" using j by (simp add: sum.delta)
  finally show ?thesis .
qed

lemma sum_kron_right: "j < n \<Longrightarrow> (\<Sum>k<n. f k * kron k j) = f j"
proof -
  assume j: "j < n"
  have "(\<Sum>k<n. f k * kron k j) = (\<Sum>k<n. if k = j then f k else 0)"
    by (intro sum.cong) (auto simp: kron_def)
  also have "\<dots> = f j" using j by (simp add: sum.delta)
  finally show ?thesis .
qed

lemma sherman_morrison_row_right:
  fixes a b :: "nat \<Rightarrow> nat \<Rightarrow> real"
  assumes ab: "\<And>i j. i < n \<Longrightarrow> j < n \<Longrightarrow> (\<Sum>k<n. a i k * b k j) = kron i j"
    and r: "r < n"
    and d: "d = 1 + (\<Sum>k<n. (h k - a r k) * b k r)" and d0: "d \<noteq> 0"
    and i: "i < n" and j: "j < n"
  shows "(\<Sum>k<n. (if i = r then h k else a i k)
              * (b k j - (b k r / d) * (\<Sum>l<n. (h l - a r l) * b l j))) = kron i j"
proof -
  define w where "w j = (\<Sum>l<n. (h l - a r l) * b l j)" for j
  have dw: "d = 1 + w r" by (simp add: d w_def)
  have hb: "(\<Sum>k<n. h k * b k j) = w j + kron r j" if "j < n" for j
  proof -
    have "(\<Sum>k<n. h k * b k j) = (\<Sum>k<n. (h k - a r k) * b k j + a r k * b k j)"
      by (intro sum.cong) (auto simp: algebra_simps)
    also have "\<dots> = w j + (\<Sum>k<n. a r k * b k j)"
      by (simp add: sum.distrib w_def)
    finally show ?thesis using ab[OF r that] by simp
  qed
  show ?thesis
  proof (cases "i = r")
    case True
    have "(\<Sum>k<n. h k * (b k j - (b k r / d) * w j))
        = (\<Sum>k<n. h k * b k j) - (\<Sum>k<n. h k * b k r) * (w j / d)"
      by (simp add: algebra_simps sum_subtractf sum_distrib_left sum_distrib_right
          sum_divide_distrib)
    also have "\<dots> = w j + kron r j - (w r + 1) * (w j / d)"
      using hb[OF j] hb[OF r] by (simp add: kron_def)
    also have "\<dots> = kron r j"
      using d0 dw by (simp add: field_simps)
    finally show ?thesis using True by (simp add: w_def)
  next
    case False
    have "(\<Sum>k<n. a i k * (b k j - (b k r / d) * w j))
        = (\<Sum>k<n. a i k * b k j) - (\<Sum>k<n. a i k * b k r) * (w j / d)"
      by (simp add: algebra_simps sum_subtractf sum_distrib_left sum_distrib_right
          sum_divide_distrib)
    also have "\<dots> = kron i j"
      using ab[OF i j] ab[OF i r] False by (simp add: kron_def)
    finally show ?thesis using False by (simp add: w_def)
  qed
qed

lemma sherman_morrison_row_left:
  fixes a b :: "nat \<Rightarrow> nat \<Rightarrow> real"
  assumes ba: "\<And>i j. i < n \<Longrightarrow> j < n \<Longrightarrow> (\<Sum>k<n. b i k * a k j) = kron i j"
    and r: "r < n"
    and d: "d = 1 + (\<Sum>k<n. (h k - a r k) * b k r)" and d0: "d \<noteq> 0"
    and i: "i < n" and j: "j < n"
  shows "(\<Sum>k<n. (b i k - (b i r / d) * (\<Sum>l<n. (h l - a r l) * b l k))
              * (if k = r then h j else a k j)) = kron i j"
proof -
  define V where "V l = h l - a r l" for l
  define w where "w j = (\<Sum>l<n. V l * b l j)" for j
  define a' where "a' k j = (if k = r then h j else a k j)" for k j
  have a': "a' k j = a k j + kron k r * V j" for k j
    by (simp add: a'_def kron_def V_def)
  have dw: "d = 1 + w r" by (simp add: d w_def V_def)
  have t1: "(\<Sum>k<n. b i k * a' k j) = kron i j + b i r * V j"
  proof -
    have "(\<Sum>k<n. b i k * a' k j) = (\<Sum>k<n. b i k * a k j) + (\<Sum>k<n. (b i k * V j) * kron k r)"
      by (simp add: a' algebra_simps sum.distrib)
    then show ?thesis using ba[OF i j] sum_kron_right[OF r, of "\<lambda>k. b i k * V j"] by simp
  qed
  have wa: "(\<Sum>k<n. w k * a k j) = V j"
  proof -
    have "(\<Sum>k<n. w k * a k j) = (\<Sum>k<n. \<Sum>l<n. V l * (b l k * a k j))"
      by (simp add: w_def sum_distrib_right mult.assoc)
    also have "\<dots> = (\<Sum>l<n. \<Sum>k<n. V l * (b l k * a k j))"
      by (rule sum.swap)
    also have "\<dots> = (\<Sum>l<n. V l * kron l j)"
      by (intro sum.cong refl) (simp add: sum_distrib_left[symmetric] ba j)
    also have "\<dots> = V j" using sum_kron_right[OF j] by simp
    finally show ?thesis .
  qed
  have t2: "(\<Sum>k<n. w k * a' k j) = V j * d"
  proof -
    have "(\<Sum>k<n. w k * a' k j) = (\<Sum>k<n. w k * a k j) + (\<Sum>k<n. (w k * V j) * kron k r)"
      by (simp add: a' algebra_simps sum.distrib)
    then show ?thesis using wa sum_kron_right[OF r, of "\<lambda>k. w k * V j"] dw
      by (simp add: algebra_simps)
  qed
  have "(\<Sum>k<n. (b i k - (b i r / d) * w k) * a' k j)
      = (\<Sum>k<n. b i k * a' k j) - (b i r / d) * (\<Sum>k<n. w k * a' k j)"
    by (simp add: algebra_simps sum_subtractf sum_distrib_left)
  also have "\<dots> = kron i j" using t1 t2 d0 by simp
  finally show ?thesis by (simp add: w_def V_def a'_def)
qed

lemma dot_sum:
  "length xs = n \<Longrightarrow> length ys = n \<Longrightarrow> dot xs ys = (\<Sum>k<n. xs ! k * ys ! k)"
proof -
  assume l: "length xs = n" "length ys = n"
  have "dot xs ys = (\<Sum>i = 0..<length (map2 (*) xs ys). map2 (*) xs ys ! i)"
    unfolding dot_def by (rule sum_list_sum_nth)
  also have "\<dots> = (\<Sum>k<n. xs ! k * ys ! k)"
    using l by (intro sum.cong) (auto simp: atLeast0LessThan)
  finally show ?thesis .
qed

lemma mat_eqI:
  assumes "is_mat r c A" and "is_mat r c B"
    and "\<And>i j. i < r \<Longrightarrow> j < c \<Longrightarrow> A ! i ! j = B ! i ! j"
  shows "A = B"
proof (rule nth_equalityI)
  show "length A = length B" using assms(1,2) by (simp add: is_mat_def)
  fix i assume "i < length A"
  then have i: "i < r" using assms(1) by (simp add: is_mat_def)
  show "A ! i = B ! i"
  proof (rule nth_equalityI)
    show "length (A ! i) = length (B ! i)"
      using is_mat_nth[OF assms(1) i] is_mat_nth[OF assms(2) i] by simp
    fix j assume "j < length (A ! i)"
    then have "j < c" using is_mat_nth[OF assms(1) i] by simp
    then show "A ! i ! j = B ! i ! j" using assms(3) i by simp
  qed
qed

lemma length_vecmat: "is_mat n n A \<Longrightarrow> length (vecmat x A) = n"
  by (cases "n = 0") (auto simp: vecmat_def shape1_is_mat, simp add: is_mat_def shape1_def)

lemma vecmat_nth:
  assumes "is_mat n n A" and "length x = n" and "j < n"
  shows "vecmat x A ! j = (\<Sum>k<n. x ! k * A ! k ! j)"
proof -
  have s: "shape1 A = n" using shape1_is_mat[OF assms(1)] assms(3) by simp
  have l: "length A = n" using assms(1) by (simp add: is_mat_def)
  have "vecmat x A ! j = dot x (col A j)" using assms(3) by (simp add: vecmat_def s)
  also have "\<dots> = (\<Sum>k<n. x ! k * col A j ! k)"
    by (rule dot_sum) (simp_all add: assms(2) l)
  also have "\<dots> = (\<Sum>k<n. x ! k * A ! k ! j)"
    by (intro sum.cong) (simp_all add: l)
  finally show ?thesis .
qed

lemma matvec_nth:
  assumes "is_mat n n A" and "length x = n" and "i < n"
  shows "matvec A x ! i = (\<Sum>k<n. A ! i ! k * x ! k)"
proof -
  have l: "length A = n" using assms(1) by (simp add: is_mat_def)
  have "matvec A x ! i = dot (A ! i) x" using assms(3) by (simp add: matvec_def l)
  also have "\<dots> = (\<Sum>k<n. A ! i ! k * x ! k)"
    by (rule dot_sum) (simp_all add: assms(2) is_mat_nth[OF assms(1,3)])
  finally show ?thesis .
qed

lemma length_matvec [simp]: "length (matvec A x) = length A"
  by (simp add: matvec_def)

lemma is_mat_mat_mul:
  assumes "is_mat n n A" and "is_mat n n B"
  shows "is_mat n n (mat_mul A B)"
  using assms(1) length_vecmat[OF assms(2)] by (auto simp: is_mat_def mat_mul_def)

lemma mat_mul_nth:
  assumes "is_mat n n A" and "is_mat n n B" and "i < n" and "j < n"
  shows "mat_mul A B ! i ! j = (\<Sum>k<n. A ! i ! k * B ! k ! j)"
proof -
  have "mat_mul A B ! i = vecmat (A ! i) B"
    using assms(1,3) by (simp add: mat_mul_def is_mat_def)
  then show ?thesis
    using vecmat_nth[OF assms(2) is_mat_nth[OF assms(1,3)] assms(4)] by simp
qed

lemma is_mat_identity: "is_mat n n (identity_mat n)"
  by (simp add: is_mat_def identity_mat_def)

lemma identity_mat_nth: "i < n \<Longrightarrow> j < n \<Longrightarrow> identity_mat n ! i ! j = kron i j"
  by (simp add: identity_mat_def)

lemma mat_mul_identity_iff:
  assumes "is_mat n n A" and "is_mat n n B"
  shows "mat_mul A B = identity_mat n
         \<longleftrightarrow> (\<forall>i<n. \<forall>j<n. (\<Sum>k<n. A ! i ! k * B ! k ! j) = kron i j)"
proof
  assume e: "mat_mul A B = identity_mat n"
  show "\<forall>i<n. \<forall>j<n. (\<Sum>k<n. A ! i ! k * B ! k ! j) = kron i j"
  proof (intro allI impI)
    fix i j assume "i < n" "j < n"
    then show "(\<Sum>k<n. A ! i ! k * B ! k ! j) = kron i j"
      using mat_mul_nth[OF assms, of i j] e by (simp add: identity_mat_nth)
  qed
next
  assume "\<forall>i<n. \<forall>j<n. (\<Sum>k<n. A ! i ! k * B ! k ! j) = kron i j"
  then show "mat_mul A B = identity_mat n"
    by (intro mat_eqI[OF is_mat_mat_mul[OF assms] is_mat_identity])
       (simp add: mat_mul_nth[OF assms] identity_mat_nth)
qed

lemma is_inverse_iff:
  "is_inverse n A B \<longleftrightarrow> is_mat n n A \<and> is_mat n n B
     \<and> (\<forall>i<n. \<forall>j<n. (\<Sum>k<n. A ! i ! k * B ! k ! j) = kron i j)
     \<and> (\<forall>i<n. \<forall>j<n. (\<Sum>k<n. B ! i ! k * A ! k ! j) = kron i j)"
  using mat_mul_identity_iff[of n A B] mat_mul_identity_iff[of n B A]
  by (auto simp: is_inverse_def)

lemma nth_del:
  assumes "i < length xs - 1"
  shows "del p xs ! i = xs ! skip p i"
proof (cases "i < p")
  case True
  moreover have "i < length xs" using assms by arith
  ultimately show ?thesis by (simp add: del_def skip_def nth_append)
next
  case False
  then have "p \<le> i" by simp
  moreover have "min (length xs) p = p" using False assms by arith
  moreover have "Suc i < length xs" using assms by arith
  ultimately show ?thesis using False
    by (simp add: del_def skip_def nth_append)
qed

lemma length_del': "p < length xs \<Longrightarrow> length (del p xs) = length xs - 1"
  by (simp add: del_def)

lemma skip_less: "i < n - 1 \<Longrightarrow> skip p i < n"
  unfolding skip_def by arith

lemma is_mat_submatrix:
  assumes "is_mat n n A" and "p < n"
  shows "is_mat (n - 1) (n - 1) (submatrix p A)"
proof (rule is_matI)
  have l: "length A = n" using assms(1) by (simp add: is_mat_def)
  show "length (submatrix p A) = n - 1"
    using assms(2) l by (simp add: submatrix_def length_del')
  fix i assume i: "i < n - 1"
  then have "submatrix p A ! i = map (del p) A ! skip p i"
    unfolding submatrix_def using l by (intro nth_del) simp
  also have "\<dots> = del p (A ! skip p i)"
    using skip_less[OF i] l by simp
  finally show "length (submatrix p A ! i) = n - 1"
    using is_mat_nth[OF assms(1) skip_less[OF i]] assms(2) by (simp add: length_del')
qed

lemma submatrix_nth:
  assumes "is_mat n n A" and "i < n - 1" and "j < n - 1"
  shows "submatrix p A ! i ! j = A ! skip p i ! skip p j"
proof -
  have l: "length A = n" using assms(1) by (simp add: is_mat_def)
  have "submatrix p A ! i = map (del p) A ! skip p i"
    unfolding submatrix_def using l assms(2) by (intro nth_del) simp
  also have "\<dots> = del p (A ! skip p i)"
    using skip_less[OF assms(2)] l by simp
  finally have "submatrix p A ! i ! j = del p (A ! skip p i) ! j" by simp
  also have "\<dots> = A ! skip p i ! skip p j"
    using is_mat_nth[OF assms(1) skip_less[OF assms(2)]] assms(3) by (intro nth_del) simp
  finally show ?thesis .
qed

lemma is_mat_rank_one:
  assumes "is_mat n n A" and "length a = n" and "length b = n"
  shows "is_mat n n (mat_sub A (outer a b))"
proof (rule is_matI)
  have l: "length A = n" using assms(1) by (simp add: is_mat_def)
  show "length (mat_sub A (outer a b)) = n"
    using l assms(2) by (simp add: mat_sub_def outer_def)
  fix i assume i: "i < n"
  then show "length (mat_sub A (outer a b) ! i) = n"
    using l assms(2,3) is_mat_nth[OF assms(1) i]
    by (simp add: mat_sub_def outer_def vec_sub_def)
qed

lemma rank_one_nth:
  assumes "is_mat n n A" and "length a = n" and "length b = n" and "i < n" and "j < n"
  shows "mat_sub A (outer a b) ! i ! j = A ! i ! j - a ! i * b ! j"
proof -
  have l: "length A = n" using assms(1) by (simp add: is_mat_def)
  show ?thesis
    using l assms(2-5) is_mat_nth[OF assms(1,4)]
    by (simp add: mat_sub_def outer_def vec_sub_def)
qed

lemma is_mat_row_update:
  assumes "is_mat n n A" and "length h = n"
  shows "is_mat n n (A[r := h])"
  using assms by (auto simp: is_mat_def dest: set_update_subset_insert[THEN subsetD])

lemma row_update_nth:
  assumes "is_mat n n A" and "i < n"
  shows "A[r := h] ! i ! j = (if i = r then h ! j else A ! i ! j)"
  using assms by (simp add: is_mat_def nth_list_update)

lemma is_mat_set_col:
  assumes "is_mat n n A" and "length v = n"
  shows "is_mat n n (set_col r v A)"
  using assms by (auto simp: is_mat_def set_col_def dest!: set_zip_leftD)

lemma set_col_nth:
  assumes "is_mat n n A" and "length v = n" and "i < n" and "j < n"
  shows "set_col r v A ! i ! j = (if j = r then v ! i else A ! i ! j)"
  using assms is_mat_nth[OF assms(1,3)] by (simp add: is_mat_def set_col_def nth_list_update)

lemma is_inverse_step:
  assumes inv: "is_inverse m A B" and r: "r < m" and h: "length h = m"
    and d: "d = 1 + dot (vec_sub h (A ! r)) (col B r)" and d0: "d \<noteq> 0"
  shows "is_inverse m (A[r := h])
           (mat_sub B (outer (map (\<lambda>x. x / d) (col B r)) (vecmat (vec_sub h (A ! r)) B)))"
proof -
  let ?V = "vec_sub h (A ! r)"
  let ?B' = "mat_sub B (outer (map (\<lambda>x. x / d) (col B r)) (vecmat ?V B))"
  from inv have A: "is_mat m m A" and B: "is_mat m m B"
    and ab: "\<And>i j. i < m \<Longrightarrow> j < m \<Longrightarrow> (\<Sum>k<m. A ! i ! k * B ! k ! j) = kron i j"
    and ba: "\<And>i j. i < m \<Longrightarrow> j < m \<Longrightarrow> (\<Sum>k<m. B ! i ! k * A ! k ! j) = kron i j"
    by (simp_all add: is_inverse_iff)
  have lB: "length B = m" using B by (simp add: is_mat_def)
  have lV: "length ?V = m" using h is_mat_nth[OF A r] by (simp add: vec_sub_def)
  have V: "?V ! k = h ! k - A ! r ! k" if "k < m" for k
    using that h is_mat_nth[OF A r] by (simp add: vec_sub_def)
  have dsum: "d = 1 + (\<Sum>k<m. (h ! k - A ! r ! k) * B ! k ! r)"
  proof -
    have "dot ?V (col B r) = (\<Sum>k<m. ?V ! k * col B r ! k)"
      by (rule dot_sum) (simp_all add: lV lB)
    also have "\<dots> = (\<Sum>k<m. (h ! k - A ! r ! k) * B ! k ! r)"
      by (intro sum.cong) (simp_all add: V lB)
    finally show ?thesis using d by simp
  qed
  have lc: "length (map (\<lambda>x. x / d) (col B r)) = m" by (simp add: lB)
  have lw: "length (vecmat ?V B) = m" by (rule length_vecmat[OF B])
  have A': "is_mat m m (A[r := h])" by (rule is_mat_row_update[OF A h])
  have B': "is_mat m m ?B'" by (rule is_mat_rank_one[OF B lc lw])
  have eA: "A[r := h] ! i ! j = (if i = r then h ! j else A ! i ! j)" if "i < m" for i j
    by (rule row_update_nth[OF A that])
  have eB: "?B' ! i ! j = B ! i ! j - (B ! i ! r / d) * (\<Sum>l<m. (h ! l - A ! r ! l) * B ! l ! j)"
    if "i < m" "j < m" for i j
  proof -
    have "vecmat ?V B ! j = (\<Sum>l<m. ?V ! l * B ! l ! j)"
      by (rule vecmat_nth[OF B lV that(2)])
    also have "\<dots> = (\<Sum>l<m. (h ! l - A ! r ! l) * B ! l ! j)"
      by (intro sum.cong) (simp_all add: V)
    finally show ?thesis
      using rank_one_nth[OF B lc lw that] that lB by simp
  qed
  have right: "(\<Sum>k<m. A[r := h] ! i ! k * ?B' ! k ! j) = kron i j" if "i < m" "j < m" for i j
  proof -
    have "(\<Sum>k<m. A[r := h] ! i ! k * ?B' ! k ! j)
        = (\<Sum>k<m. (if i = r then h ! k else A ! i ! k)
              * (B ! k ! j - (B ! k ! r / d) * (\<Sum>l<m. (h ! l - A ! r ! l) * B ! l ! j)))"
      by (intro sum.cong refl) (simp add: eA[OF that(1)] eB that(2))
    also have "\<dots> = kron i j"
      by (rule sherman_morrison_row_right[where a = "\<lambda>i j. A ! i ! j" and b = "\<lambda>i j. B ! i ! j"
            and h = "\<lambda>j. h ! j", OF ab r dsum d0 that])
    finally show ?thesis .
  qed
  have left: "(\<Sum>k<m. ?B' ! i ! k * A[r := h] ! k ! j) = kron i j" if "i < m" "j < m" for i j
  proof -
    have "(\<Sum>k<m. ?B' ! i ! k * A[r := h] ! k ! j)
        = (\<Sum>k<m. (B ! i ! k - (B ! i ! r / d) * (\<Sum>l<m. (h ! l - A ! r ! l) * B ! l ! k))
              * (if k = r then h ! j else A ! k ! j))"
      by (intro sum.cong refl) (simp add: eA eB that(1))
    also have "\<dots> = kron i j"
      by (rule sherman_morrison_row_left[where a = "\<lambda>i j. A ! i ! j" and b = "\<lambda>i j. B ! i ! j"
            and h = "\<lambda>j. h ! j", OF ba r dsum d0 that])
    finally show ?thesis .
  qed
  show ?thesis
    unfolding is_inverse_iff using A' B' right left by simp
qed

lemma kron_sym: "kron i j = kron j i"
  by (simp add: kron_def)

lemma is_inverse_step_col:
  assumes inv: "is_inverse m A B" and r: "r < m" and v: "length v = m"
    and d: "d = 1 + dot (B ! r) (vec_sub v (col A r))" and d0: "d \<noteq> 0"
  shows "is_inverse m (set_col r v A)
           (mat_sub B (outer (matvec B (vec_sub v (col A r))) (map (\<lambda>x. x / d) (B ! r))))"
proof -
  let ?U = "vec_sub v (col A r)"
  let ?B' = "mat_sub B (outer (matvec B ?U) (map (\<lambda>x. x / d) (B ! r)))"
  let ?A' = "set_col r v A"
  from inv have A: "is_mat m m A" and B: "is_mat m m B"
    and ab: "\<And>i j. i < m \<Longrightarrow> j < m \<Longrightarrow> (\<Sum>k<m. A ! i ! k * B ! k ! j) = kron i j"
    and ba: "\<And>i j. i < m \<Longrightarrow> j < m \<Longrightarrow> (\<Sum>k<m. B ! i ! k * A ! k ! j) = kron i j"
    by (simp_all add: is_inverse_iff)
  have lA: "length A = m" using A by (simp add: is_mat_def)
  have lB: "length B = m" using B by (simp add: is_mat_def)
  have lBr: "length (B ! r) = m" by (rule is_mat_nth[OF B r])
  have lU: "length ?U = m" using v lA by (simp add: vec_sub_def)
  have U: "?U ! k = v ! k - A ! k ! r" if "k < m" for k
    using that v lA by (simp add: vec_sub_def)
  have dsum: "d = 1 + (\<Sum>k<m. (v ! k - A ! k ! r) * B ! r ! k)"
  proof -
    have "dot (B ! r) ?U = (\<Sum>k<m. B ! r ! k * ?U ! k)"
      by (rule dot_sum) (simp_all add: lU lBr)
    also have "\<dots> = (\<Sum>k<m. (v ! k - A ! k ! r) * B ! r ! k)"
      by (intro sum.cong) (simp_all add: U)
    finally show ?thesis using d by simp
  qed
  have lc: "length (map (\<lambda>x. x / d) (B ! r)) = m" by (simp add: lBr)
  have lw: "length (matvec B ?U) = m" by (simp add: lB)
  have A': "is_mat m m ?A'" by (rule is_mat_set_col[OF A v])
  have B': "is_mat m m ?B'" by (rule is_mat_rank_one[OF B lw lc])
  have eA: "?A' ! i ! j = (if j = r then v ! i else A ! i ! j)" if "i < m" "j < m" for i j
    by (rule set_col_nth[OF A v that])
  have eB: "?B' ! i ! j = B ! i ! j - (B ! r ! j / d) * (\<Sum>l<m. (v ! l - A ! l ! r) * B ! i ! l)"
    if "i < m" "j < m" for i j
  proof -
    have "matvec B ?U ! i = (\<Sum>l<m. B ! i ! l * ?U ! l)"
      by (rule matvec_nth[OF B lU that(1)])
    also have "\<dots> = (\<Sum>l<m. (v ! l - A ! l ! r) * B ! i ! l)"
      by (intro sum.cong) (simp_all add: U)
    finally show ?thesis
      using rank_one_nth[OF B lw lc that] that lBr by simp
  qed
  have abT: "(\<Sum>k<m. A ! k ! i * B ! j ! k) = kron i j" if "i < m" "j < m" for i j
  proof -
    have "(\<Sum>k<m. A ! k ! i * B ! j ! k) = (\<Sum>k<m. B ! j ! k * A ! k ! i)"
      by (intro sum.cong refl) simp
    then show ?thesis using ba[OF that(2,1)] kron_sym[of i j] by simp
  qed
  have baT: "(\<Sum>k<m. B ! k ! i * A ! j ! k) = kron i j" if "i < m" "j < m" for i j
  proof -
    have "(\<Sum>k<m. B ! k ! i * A ! j ! k) = (\<Sum>k<m. A ! j ! k * B ! k ! i)"
      by (intro sum.cong refl) simp
    then show ?thesis using ab[OF that(2,1)] kron_sym[of i j] by simp
  qed
  have left: "(\<Sum>k<m. ?B' ! i ! k * ?A' ! k ! j) = kron i j" if "i < m" "j < m" for i j
  proof -
    have "(\<Sum>k<m. ?B' ! i ! k * ?A' ! k ! j)
        = (\<Sum>k<m. (if j = r then v ! k else A ! k ! j)
              * (B ! i ! k - (B ! r ! k / d) * (\<Sum>l<m. (v ! l - A ! l ! r) * B ! i ! l)))"
      by (intro sum.cong refl) (simp add: eA that eB)
    also have "\<dots> = kron j i"
      by (rule sherman_morrison_row_right[where a = "\<lambda>i j. A ! j ! i" and b = "\<lambda>i j. B ! j ! i"
            and h = "\<lambda>j. v ! j", OF abT r dsum d0 that(2,1)])
    finally show ?thesis using kron_sym[of i j] by simp
  qed
  have right: "(\<Sum>k<m. ?A' ! i ! k * ?B' ! k ! j) = kron i j" if "i < m" "j < m" for i j
  proof -
    have "(\<Sum>k<m. ?A' ! i ! k * ?B' ! k ! j)
        = (\<Sum>k<m. (B ! k ! j - (B ! r ! j / d) * (\<Sum>l<m. (v ! l - A ! l ! r) * B ! k ! l))
              * (if k = r then v ! i else A ! i ! k))"
      by (intro sum.cong refl) (simp add: eA that eB)
    also have "\<dots> = kron j i"
      by (rule sherman_morrison_row_left[where a = "\<lambda>i j. A ! j ! i" and b = "\<lambda>i j. B ! j ! i"
            and h = "\<lambda>j. v ! j", OF baT r dsum d0 that(2,1)])
    finally show ?thesis using kron_sym[of i j] by simp
  qed
  show ?thesis
    unfolding is_inverse_iff using A' B' right left by simp
qed

section \<open>The submatrix maintainer\<close>

lemma update_vectors_del:
  "update_vectors full n = (del (Suc n) (full ! n), del (Suc n) (col full n))"
  by (simp add: update_vectors_def del_def Let_def)

lemma update_submatrix_Inr:
  assumes "update_submatrix full sub sub_inv p = Inr (sub', sub_inv')"
  defines "r \<equiv> p - 1"
  defines "h \<equiv> del (Suc r) (full ! r)"
  defines "v \<equiv> del (Suc r) (col full r)"
  defines "d1 \<equiv> 1 + dot (vec_sub h (sub ! r)) (col sub_inv r)"
  defines "B1 \<equiv> mat_sub sub_inv
                  (outer (map (\<lambda>x. x / d1) (col sub_inv r)) (vecmat (vec_sub h (sub ! r)) sub_inv))"
  defines "A1 \<equiv> sub[r := h]"
  defines "d2 \<equiv> 1 + dot (B1 ! r) (vec_sub v (col A1 r))"
  shows "d1 \<noteq> 0 \<and> d2 \<noteq> 0 \<and> sub' = set_col r v A1
       \<and> sub_inv' = mat_sub B1 (outer (matvec B1 (vec_sub v (col A1 r))) (map (\<lambda>x. x / d2) (B1 ! r)))"
  using assms(1)
  unfolding update_submatrix_def update_vectors_del Let_def r_def h_def v_def d1_def B1_def
    A1_def d2_def
  by (simp split: if_splits)

lemma is_inverse_2x2:
  "a * d - b * c \<noteq> 0 \<Longrightarrow>
   is_inverse 2 [[a, b], [c, d]]
     [[d / (a * d - b * c), - b / (a * d - b * c)], [- c / (a * d - b * c), a / (a * d - b * c)]]"
  by (simp add: is_inverse_def is_mat_def mat_mul_def identity_mat_def kron_def
      vecmat_def shape1_def col_def dot_def upt_0_2 diff_divide_distrib[symmetric]
      add_divide_distrib[symmetric] mult.commute)

lemma update_submatrix_exact:
  assumes F: "is_mat N N full" and p: "1 \<le> p" "p < N"
    and sub: "sub = submatrix (p - 1) full"
    and inv: "is_inverse (N - 1) sub sub_inv"
    and res: "update_submatrix full sub sub_inv p = Inr (sub', sub_inv')"
  shows "sub' = submatrix p full \<and> is_inverse (N - 1) sub' sub_inv'"
proof -
  define r where "r = p - 1"
  define m where "m = N - 1"
  define h where "h = del (Suc r) (full ! r)"
  define v where "v = del (Suc r) (col full r)"
  define d1 where "d1 = 1 + dot (vec_sub h (sub ! r)) (col sub_inv r)"
  define B1 where "B1 = mat_sub sub_inv
                  (outer (map (\<lambda>x. x / d1) (col sub_inv r)) (vecmat (vec_sub h (sub ! r)) sub_inv))"
  define A1 where "A1 = sub[r := h]"
  define d2 where "d2 = 1 + dot (B1 ! r) (vec_sub v (col A1 r))"
  note R = update_submatrix_Inr[OF res, folded r_def, folded h_def v_def, folded d1_def,
      folded B1_def A1_def, folded d2_def]
  from R have d1: "d1 \<noteq> 0" and d2: "d2 \<noteq> 0" and sub': "sub' = set_col r v A1"
    and sub_inv': "sub_inv' = mat_sub B1 (outer (matvec B1 (vec_sub v (col A1 r)))
                     (map (\<lambda>x. x / d2) (B1 ! r)))"
    by simp_all
  have Sr: "Suc r = p" using p by (simp add: r_def)
  have rm: "r < m" using p by (simp add: r_def m_def)
  have rN: "r < N" using p by (simp add: r_def)
  have lF: "length full = N" using F by (simp add: is_mat_def)
  have lh: "length h = m"
    using is_mat_nth[OF F rN] p by (simp add: h_def Sr length_del' m_def)
  have lv: "length v = m"
    using lF p by (simp add: v_def Sr length_del' m_def)
  have inv0: "is_inverse m sub sub_inv" using inv by (simp add: m_def)
  have inv1: "is_inverse m A1 B1"
    unfolding A1_def B1_def by (rule is_inverse_step[OF inv0 rm lh d1_def d1])
  have inv2: "is_inverse m sub' sub_inv'"
    unfolding sub' sub_inv' by (rule is_inverse_step_col[OF inv1 rm lv d2_def d2])
  have S: "is_mat m m sub" using inv0 by (simp add: is_inverse_def)
  have S1: "is_mat m m A1" using inv1 by (simp add: is_inverse_def)
  have S2: "is_mat m m sub'" using inv2 by (simp add: is_inverse_def)
  have T: "is_mat m m (submatrix p full)"
    unfolding m_def by (rule is_mat_submatrix[OF F p(2)])
  have "sub' = submatrix p full"
  proof (rule mat_eqI[OF S2 T])
    fix i j assume i: "i < m" and j: "j < m"
    have i': "i < N - 1" and j': "j < N - 1" using i j by (simp_all add: m_def)
    have e: "sub' ! i ! j = (if j = r then v ! i else if i = r then h ! j else sub ! i ! j)"
      unfolding sub' A1_def
      using set_col_nth[OF S1[unfolded A1_def] lv i j] row_update_nth[OF S i] by simp
    have t: "submatrix p full ! i ! j = full ! skip p i ! skip p j"
      by (rule submatrix_nth[OF F i' j'])
    have vi: "v ! i = full ! skip p i ! r"
    proof -
      have "v ! i = col full r ! skip p i"
        unfolding v_def Sr using lF i' by (intro nth_del) simp
      then show ?thesis using skip_less[OF i'] lF by simp
    qed
    have hj: "h ! j = full ! r ! skip p j"
      unfolding h_def Sr using is_mat_nth[OF F rN] j' by (intro nth_del) simp
    have sr: "skip p r = r" using Sr by (simp add: skip_def)
    have sij: "sub ! i ! j = full ! skip r i ! skip r j"
      unfolding sub r_def by (rule submatrix_nth[OF F i' j'])
    have sk: "skip r k = skip p k" if "k \<noteq> r" for k
      using that Sr by (auto simp: skip_def)
    show "sub' ! i ! j = submatrix p full ! i ! j"
      unfolding e t using vi hj sr sij sk by auto
  qed
  with inv2 show ?thesis by (simp add: m_def)
qed

text \<open>
  What the two rank-one corrections do achieve. Let \<open>full\<close> be an \<open>N \<times> N\<close> matrix,
  symmetric or not, and \<open>1 \<le> p < N\<close>. If \<open>sub\<close> is \<open>full\<close> with row and column \<open>p - 1\<close>
  removed, \<open>sub_inv\<close> is the inverse of \<open>sub\<close>, and neither of the two denominators is
  zero, then after \<open>update_submatrix full sub sub_inv p\<close> the array \<open>sub\<close> is \<open>full\<close> with
  row and column \<open>p\<close> removed and \<open>sub_inv\<close> is the inverse of that submatrix.
\<close>

theorem update_submatrix_correct:
  assumes "is_mat N N full" and "1 \<le> p" and "p < N"
    and "sub = submatrix (p - 1) full"
    and "is_inverse (N - 1) sub sub_inv"
    and "update_submatrix full sub sub_inv p = Inr (sub', sub_inv')"
  shows "sub' = submatrix p full \<and> is_inverse (N - 1) sub' sub_inv'"
  using assms by (rule update_submatrix_exact)

theorem update_submatrix_correct_witness:
  "update_submatrix [[2, 1, 0], [1, 2, 1], [0, 1, 2]] [[2, 1], [1, 2]]
       [[2 / 3, - 1 / 3], [- 1 / 3, 2 / 3]] 1
     = Inr ([[2, 0], [0, 2]], [[1 / 2, 0], [0, 1 / 2]])
   \<and> [[2, 0], [0, 2]] = submatrix 1 [[2, 1, 0], [1, 2, 1], [0, 1, 2]]
   \<and> is_inverse 2 [[2, 0], [0, 2]] [[1 / 2, 0], [0, 1 / 2]]"
proof -
  let ?F = "[[2, 1, 0], [1, 2, 1], [0, 1, 2]] :: mat"
  have F: "is_mat 3 3 ?F" by (simp add: is_mat_def)
  have s: "[[2, 1], [1, 2]] = submatrix (1 - 1) ?F" by (simp add: submatrix_def del_def)
  have i: "is_inverse (3 - 1) [[2, 1], [1, 2]] [[2 / 3, - 1 / 3], [- 1 / 3, 2 / 3]]"
    using is_inverse_2x2[of 2 2 1 1] by simp
  have r: "update_submatrix ?F [[2, 1], [1, 2]] [[2 / 3, - 1 / 3], [- 1 / 3, 2 / 3]] 1
     = Inr ([[2, 0], [0, 2]], [[1 / 2, 0], [0, 1 / 2]])"
    by (simp add: update_submatrix_def update_vectors_def eval_arrays Let_def)
  have p1: "(1::nat) \<le> 1" and p2: "(1::nat) < 3" by simp_all
  from update_submatrix_correct[OF F p1 p2 s i r]
  have c1: "[[2, 0], [0, 2]] = submatrix 1 ?F"
    and c2: "is_inverse (3 - 1) [[2, 0], [0, 2]] [[1 / 2, 0], [0, 1 / 2]]"
    by blast+
  from c2 have "is_inverse 2 [[2, 0], [0, 2]] [[1 / 2, 0], [0, 1 / 2]]" by simp
  with r c1 show ?thesis by blast
qed

text \<open>An input that meets everything the docstring of \<open>update_submatrix\<close> and the claim
  ask for: \<open>full\<close> is symmetric and positive definite, \<open>sub\<close> is \<open>full\<close> without row and
  column 0, \<open>sub_inv\<close> is the inverse of \<open>sub\<close>; and the submatrix that the call is to
  produce, \<open>full\<close> without row and column 1, has an inverse.\<close>

lemma singular_row_step_input:
  "symmetric_mat 3 [[1, 0, 1 / 2], [0, 8, 2], [1 / 2, 2, 1]]
   \<and> [[8, 2], [2, 1]] = submatrix 0 [[1, 0, 1 / 2], [0, 8, 2], [1 / 2, 2, 1]]
   \<and> is_inverse 2 [[8, 2], [2, 1]] [[1 / 4, - 1 / 2], [- 1 / 2, 2]]
   \<and> [[1, 1 / 2], [1 / 2, 1]] = submatrix 1 [[1, 0, 1 / 2], [0, 8, 2], [1 / 2, 2, 1]]
   \<and> is_inverse 2 [[1, 1 / 2], [1 / 2, 1]] [[4 / 3, - 2 / 3], [- 2 / 3, 4 / 3]]"
proof -
  have "symmetric_mat 3 [[1, 0, 1 / 2], [0, 8, 2], [1 / 2, 2, 1]]"
    by (simp add: symmetric_mat_def is_mat_def less_Suc_eq numeral_3_eq_3 all_conj_distrib)
  moreover have "[[8, 2], [2, 1]] = submatrix 0 [[1, 0, 1 / 2], [0, 8, 2], [1 / 2, 2, 1]]"
    by (simp add: submatrix_def del_def)
  moreover have "is_inverse 2 [[8, 2], [2, 1]] [[1 / 4, - 1 / 2], [- 1 / 2, 2]]"
    using is_inverse_2x2[of 8 1 2 2] by simp
  moreover have "[[1, 1 / 2], [1 / 2, 1]]
      = submatrix 1 [[1, 0, 1 / 2], [0, 8, 2], [1 / 2, 2, 1]]"
    by (simp add: submatrix_def del_def)
  moreover have "is_inverse 2 [[1, 1 / 2], [1 / 2, 1]] [[4 / 3, - 2 / 3], [- 2 / 3, 4 / 3]]"
    using is_inverse_2x2[of 1 1 "1 / 2" "1 / 2"] by simp
  ultimately show ?thesis by blast
qed

lemma singular_row_step_pos_def:
  "pos_def 3 [[1, 0, 1 / 2], [0, 8, 2], [1 / 2, 2, 1]]"
  unfolding pos_def_def
proof (intro allI impI)
  fix x :: vec
  assume h: "length x = 3 \<and> (\<exists>i<3. x ! i \<noteq> 0)"
  then obtain a b c where x: "x = [a, b, c]"
    by (cases x; cases "tl x"; cases "tl (tl x)"; cases "tl (tl (tl x))") auto
  from h have nz: "a \<noteq> 0 \<or> b \<noteq> 0 \<or> c \<noteq> 0"
    unfolding x by (auto simp: less_Suc_eq numeral_3_eq_3)
  have q: "quad_form [[1, 0, 1 / 2], [0, 8, 2], [1 / 2, 2, 1]] x
         = (a + c / 2)\<^sup>2 + 8 * (b + c / 4)\<^sup>2 + c\<^sup>2 / 4"
    unfolding x quad_form_def
    by (simp add: dot_def matvec_def power2_eq_square algebra_simps)
  have "0 < (a + c / 2)\<^sup>2 + 8 * (b + c / 4)\<^sup>2 + c\<^sup>2 / 4"
  proof (cases "c = 0")
    case True
    with nz have "a \<noteq> 0 \<or> b \<noteq> 0" by simp
    then have "0 < a\<^sup>2 + 8 * b\<^sup>2"
      by (metis add_pos_nonneg add_nonneg_pos zero_less_power2 zero_le_power2
          mult_pos_pos mult_nonneg_nonneg zero_less_numeral zero_le_numeral)
    with True show ?thesis by simp
  next
    case False
    then have "0 < c\<^sup>2 / 4" by simp
    moreover have "0 \<le> (a + c / 2)\<^sup>2 + 8 * (b + c / 4)\<^sup>2" by simp
    ultimately show ?thesis by linarith
  qed
  with q show "0 < quad_form [[1, 0, 1 / 2], [0, 8, 2], [1 / 2, 2, 1]] x" by simp
qed

text \<open>
  C2. On that input the claim and the docstring of lines 158-167 promise that \<open>sub_inv\<close>
  ends as the inverse \<open>[[4/3, -2/3], [-2/3, 4/3]]\<close> of \<open>full\<close> without row and column 1.
  The code does not deliver it: the matrix with only the row replaced is singular, the
  first denominator \<open>1 + V \<cdot> coln\<close> of line 176 is zero, and the unguarded division fills
  \<open>sub_inv\<close> with \<^verbatim>\<open>inf\<close> and \<^verbatim>\<open>nan\<close>.
\<close>

theorem update_submatrix_divides_by_zero:
  "update_submatrix [[1, 0, 1 / 2], [0, 8, 2], [1 / 2, 2, 1]] [[8, 2], [2, 1]]
        [[1 / 4, - 1 / 2], [- 1 / 2, 2]] 1 = Inl NonFinite"
  by (simp add: update_submatrix_def update_vectors_def eval_arrays Let_def)

section \<open>Positive definiteness of the written-back matrix\<close>

text \<open>With \<open>W\<close> the matrix without row and column \<open>p\<close>, \<open>B\<close> its inverse and
  \<open>d = 1 / v + y\<^sup>T B y\<close> the new diagonal entry, the quadratic form of the written-back
  matrix at \<open>x\<close> is that of \<open>W\<close> at \<open>z = x' + x\<^sub>p B y\<close> plus \<open>x\<^sub>p\<^sup>2 / v\<close>: the Schur
  complement of \<open>W\<close> is \<open>1 / v\<close>.\<close>

lemma sum_skip:
  assumes "p < n"
  shows "(\<Sum>i<n. f i) = f p + (\<Sum>i<n - 1. f (skip p i) :: real)"
proof -
  have "(\<Sum>i<n - 1. f (skip p i)) = (\<Sum>i<p. f (skip p i)) + (\<Sum>i=p..<n - 1. f (skip p i))"
  proof -
    have "{..<n - 1} = {..<p} \<union> {p..<n - 1}" using assms by auto
    moreover have "{..<p} \<inter> {p..<n - 1} = {}" by auto
    ultimately show ?thesis by (simp add: sum.union_disjoint)
  qed
  also have "(\<Sum>i<p. f (skip p i)) = (\<Sum>i<p. f i)"
    by (intro sum.cong) (simp_all add: skip_def)
  also have "(\<Sum>i=p..<n - 1. f (skip p i)) = (\<Sum>i=p..<n - 1. f (Suc i))"
    by (intro sum.cong) (simp_all add: skip_def)
  also have "\<dots> = (\<Sum>i=Suc p..<n. f i)"
  proof -
    have "(\<Sum>i=Suc p..<Suc (n - 1). f i) = (\<Sum>i=p..<n - 1. f (Suc i))"
      by (rule sum.shift_bounds_Suc_ivl)
    then show ?thesis using assms by simp
  qed
  finally have e: "(\<Sum>i<n - 1. f (skip p i)) = (\<Sum>i<p. f i) + (\<Sum>i=Suc p..<n. f i)" .
  have "{..<n} = {..<p} \<union> ({p} \<union> {Suc p..<n})" using assms by auto
  moreover have "{..<p} \<inter> ({p} \<union> {Suc p..<n}) = {}" by auto
  ultimately have "(\<Sum>i<n. f i) = (\<Sum>i<p. f i) + (\<Sum>i\<in>{p} \<union> {Suc p..<n}. f i)"
    by (simp add: sum.union_disjoint)
  also have "(\<Sum>i\<in>{p} \<union> {Suc p..<n}. f i) = f p + (\<Sum>i=Suc p..<n. f i)"
    by (subst sum.union_disjoint) auto
  finally show ?thesis using e by simp
qed

lemma schur_identity:
  fixes w b :: "nat \<Rightarrow> nat \<Rightarrow> real" and y x :: "nat \<Rightarrow> real" and x2 :: real
  assumes wb: "\<And>i j. i < m \<Longrightarrow> j < m \<Longrightarrow> (\<Sum>k<m. w i k * b k j) = kron i j"
    and sym: "\<And>i j. i < m \<Longrightarrow> j < m \<Longrightarrow> w i j = w j i"
  defines "t \<equiv> \<lambda>i. (\<Sum>c<m. b i c * y c)"
  defines "z \<equiv> \<lambda>i. x i + x2 * t i"
  shows "(\<Sum>i<m. \<Sum>j<m. z i * w i j * z j)
       = (\<Sum>i<m. \<Sum>j<m. x i * w i j * x j) + 2 * x2 * (\<Sum>i<m. y i * x i)
         + x2\<^sup>2 * (\<Sum>j<m. (\<Sum>i<m. y i * b i j) * y j)"
proof -
  have wt: "(\<Sum>j<m. w i j * t j) = y i" if "i < m" for i
  proof -
    have "(\<Sum>j<m. w i j * t j) = (\<Sum>j<m. \<Sum>c<m. (w i j * b j c) * y c)"
      by (simp add: t_def sum_distrib_left mult.assoc)
    also have "\<dots> = (\<Sum>c<m. \<Sum>j<m. (w i j * b j c) * y c)"
      by (rule sum.swap)
    also have "\<dots> = (\<Sum>c<m. kron i c * y c)"
      by (intro sum.cong refl) (simp add: sum_distrib_right[symmetric] wb that)
    also have "\<dots> = y i" using sum_kron_left[OF that, of y] by simp
    finally show ?thesis .
  qed
  have tw: "(\<Sum>i<m. t i * w i j) = y j" if "j < m" for j
  proof -
    have "(\<Sum>i<m. t i * w i j) = (\<Sum>i<m. w j i * t i)"
      by (intro sum.cong refl) (simp add: sym that)
    then show ?thesis using wt[OF that] by simp
  qed
  have e1: "(\<Sum>i<m. \<Sum>j<m. x i * w i j * t j) = (\<Sum>i<m. y i * x i)"
  proof -
    have "(\<Sum>i<m. \<Sum>j<m. x i * w i j * t j) = (\<Sum>i<m. x i * (\<Sum>j<m. w i j * t j))"
      by (simp add: sum_distrib_left mult.assoc)
    also have "\<dots> = (\<Sum>i<m. y i * x i)"
      by (intro sum.cong refl) (simp add: wt)
    finally show ?thesis .
  qed
  have e2: "(\<Sum>i<m. \<Sum>j<m. t i * w i j * x j) = (\<Sum>i<m. y i * x i)"
  proof -
    have "(\<Sum>i<m. \<Sum>j<m. t i * w i j * x j) = (\<Sum>j<m. \<Sum>i<m. t i * w i j * x j)"
      by (rule sum.swap)
    also have "\<dots> = (\<Sum>j<m. (\<Sum>i<m. t i * w i j) * x j)"
      by (simp add: sum_distrib_right)
    also have "\<dots> = (\<Sum>j<m. y j * x j)"
      by (intro sum.cong refl) (simp add: tw)
    finally show ?thesis .
  qed
  have e3: "(\<Sum>i<m. \<Sum>j<m. t i * w i j * t j) = (\<Sum>j<m. (\<Sum>i<m. y i * b i j) * y j)"
  proof -
    have "(\<Sum>i<m. \<Sum>j<m. t i * w i j * t j) = (\<Sum>i<m. t i * (\<Sum>j<m. w i j * t j))"
      by (simp add: sum_distrib_left mult.assoc)
    also have "\<dots> = (\<Sum>i<m. t i * y i)"
      by (intro sum.cong refl) (simp add: wt)
    also have "\<dots> = (\<Sum>i<m. \<Sum>c<m. y i * b i c * y c)"
      unfolding t_def sum_distrib_right by (intro sum.cong refl) (simp add: mult_ac)
    also have "\<dots> = (\<Sum>c<m. \<Sum>i<m. y i * b i c * y c)"
      by (rule sum.swap)
    also have "\<dots> = (\<Sum>j<m. (\<Sum>i<m. y i * b i j) * y j)"
      by (simp add: sum_distrib_right)
    finally show ?thesis .
  qed
  have "(\<Sum>i<m. \<Sum>j<m. z i * w i j * z j)
      = (\<Sum>i<m. \<Sum>j<m. x i * w i j * x j + x2 * (x i * w i j * t j)
            + x2 * (t i * w i j * x j) + x2\<^sup>2 * (t i * w i j * t j))"
    by (intro sum.cong refl) (simp add: z_def algebra_simps power2_eq_square)
  also have "\<dots> = (\<Sum>i<m. \<Sum>j<m. x i * w i j * x j)
       + x2 * (\<Sum>i<m. \<Sum>j<m. x i * w i j * t j)
       + x2 * (\<Sum>i<m. \<Sum>j<m. t i * w i j * x j)
       + x2\<^sup>2 * (\<Sum>i<m. \<Sum>j<m. t i * w i j * t j)"
    by (simp add: sum.distrib sum_distrib_left)
  finally show ?thesis by (simp add: e1 e2 e3)
qed

lemma quad_form_sum:
  assumes "is_mat n n A" and "length x = n"
  shows "quad_form A x = (\<Sum>i<n. \<Sum>j<n. x ! i * A ! i ! j * x ! j)"
proof -
  have l: "length A = n" using assms(1) by (simp add: is_mat_def)
  have "quad_form A x = (\<Sum>i<n. x ! i * matvec A x ! i)"
    unfolding quad_form_def by (rule dot_sum) (simp_all add: assms(2) l)
  also have "\<dots> = (\<Sum>i<n. x ! i * (\<Sum>j<n. A ! i ! j * x ! j))"
    by (intro sum.cong refl) (simp add: matvec_nth[OF assms])
  also have "\<dots> = (\<Sum>i<n. \<Sum>j<n. x ! i * A ! i ! j * x ! j)"
    by (simp add: sum_distrib_left mult.assoc)
  finally show ?thesis .
qed

lemma length_ins: "length (ins p d y) = Suc (length y)"
  by (simp add: ins_def)

lemma ins_nth_same: "p \<le> length y \<Longrightarrow> ins p d y ! p = d"
  by (simp add: ins_def nth_append)

lemma ins_nth_skip: "a < length y \<Longrightarrow> p \<le> length y \<Longrightarrow> ins p d y ! skip p a = y ! a"
  by (auto simp: ins_def skip_def nth_append nth_Cons' Suc_diff_le)

lemma is_mat_write_back:
  assumes "is_mat n n A" and "length y = n - 1" and "p < n"
  shows "is_mat n n (write_back p y d A)"
proof -
  have l: "length (ins p d y) = n" using assms(2,3) by (simp add: length_ins)
  show ?thesis
    unfolding write_back_def
    by (rule is_mat_row_update[OF is_mat_set_col[OF assms(1) l] l])
qed

lemma write_back_nth:
  assumes "is_mat n n A" and "length y = n - 1" and "p < n" and "i < n" and "j < n"
  shows "write_back p y d A ! i ! j
         = (if i = p then ins p d y ! j else if j = p then ins p d y ! i else A ! i ! j)"
proof -
  have l: "length (ins p d y) = n" using assms(2,3) by (simp add: length_ins)
  show ?thesis
    unfolding write_back_def
    using row_update_nth[OF is_mat_set_col[OF assms(1) l] assms(4)]
      set_col_nth[OF assms(1) l assms(4,5)]
    by simp
qed

lemma skip_neq: "skip p a \<noteq> p"
  by (simp add: skip_def)

lemma submatrix_write_back:
  assumes "is_mat n n A" and "length y = n - 1" and "p < n"
  shows "submatrix p (write_back p y d A) = submatrix p A"
proof (rule mat_eqI[OF is_mat_submatrix[OF is_mat_write_back[OF assms] assms(3)]
      is_mat_submatrix[OF assms(1,3)]])
  fix i j assume i: "i < n - 1" and j: "j < n - 1"
  show "submatrix p (write_back p y d A) ! i ! j = submatrix p A ! i ! j"
    using submatrix_nth[OF is_mat_write_back[OF assms] i j, of p d]
      submatrix_nth[OF assms(1) i j, of p]
      write_back_nth[OF assms skip_less[OF i] skip_less[OF j]]
    by (simp add: skip_neq)
qed

lemma quad_form_zero:
  assumes "is_mat n n A" and "length x = n" and "\<forall>i<n. x ! i = 0"
  shows "quad_form A x = 0"
  unfolding quad_form_sum[OF assms(1,2)] using assms(3) by simp

lemma pos_def_nonneg:
  assumes "pos_def n A" and "is_mat n n A" and "length x = n"
  shows "0 \<le> quad_form A x"
proof (cases "\<exists>i<n. x ! i \<noteq> 0")
  case True
  then show ?thesis using assms(1,3) unfolding pos_def_def by (simp add: less_imp_le)
next
  case False
  then show ?thesis using quad_form_zero[OF assms(2,3)] by simp
qed

lemma quad_form_submatrix:
  assumes A: "is_mat n n A" and p: "p < n" and z: "length z = n - 1"
  shows "quad_form (submatrix p A) z = quad_form A (ins p 0 z)"
proof -
  define m where "m = n - 1"
  let ?x = "ins p 0 z"
  have lz: "length z = m" using z by (simp add: m_def)
  have lx: "length ?x = n" using z p by (simp add: length_ins)
  have pz: "p \<le> length z" using z p by simp
  have xp: "?x ! p = 0" by (rule ins_nth_same[OF pz])
  have xs: "?x ! skip p a = z ! a" if "a < m" for a
    using that lz pz by (intro ins_nth_skip) simp_all
  have sk: "(\<Sum>i<n. f i) = f p + (\<Sum>i<m. f (skip p i))" for f :: "nat \<Rightarrow> real"
    unfolding m_def by (rule sum_skip[OF p])
  have sub: "submatrix p A ! a ! b = A ! skip p a ! skip p b" if "a < m" "b < m" for a b
    using that submatrix_nth[OF A, of a b p] by (simp add: m_def)
  have "quad_form A ?x = (\<Sum>i<n. \<Sum>j<n. ?x ! i * A ! i ! j * ?x ! j)"
    by (rule quad_form_sum[OF A lx])
  also have "\<dots> = (\<Sum>a<m. \<Sum>j<n. ?x ! skip p a * A ! skip p a ! j * ?x ! j)"
    by (subst sk) (simp add: xp)
  also have "\<dots> = (\<Sum>a<m. \<Sum>b<m. z ! a * A ! skip p a ! skip p b * z ! b)"
  proof (rule sum.cong[OF refl])
    fix a assume "a \<in> {..<m}"
    then have a: "a < m" by simp
    have "(\<Sum>j<n. ?x ! skip p a * A ! skip p a ! j * ?x ! j)
        = (\<Sum>b<m. ?x ! skip p a * A ! skip p a ! skip p b * ?x ! skip p b)"
      by (subst sk) (simp add: xp)
    also have "\<dots> = (\<Sum>b<m. z ! a * A ! skip p a ! skip p b * z ! b)"
      by (intro sum.cong refl) (simp add: xs a)
    finally show "(\<Sum>j<n. ?x ! skip p a * A ! skip p a ! j * ?x ! j)
        = (\<Sum>b<m. z ! a * A ! skip p a ! skip p b * z ! b)" .
  qed
  also have "\<dots> = (\<Sum>a<m. \<Sum>b<m. z ! a * submatrix p A ! a ! b * z ! b)"
    by (intro sum.cong refl) (simp add: sub)
  also have "\<dots> = quad_form (submatrix p A) z"
    using quad_form_sum[OF is_mat_submatrix[OF A p] z] by (simp add: m_def)
  finally show ?thesis by simp
qed

lemma pos_def_submatrix:
  assumes A: "is_mat n n A" and p: "p < n" and pd: "pos_def n A"
  shows "pos_def (n - 1) (submatrix p A)"
  unfolding pos_def_def
proof (intro allI impI)
  fix z :: vec assume h: "length z = n - 1 \<and> (\<exists>i<n - 1. z ! i \<noteq> 0)"
  then obtain a where a: "a < n - 1" "z ! a \<noteq> 0" by blast
  have pz: "p \<le> length z" using h p by simp
  have "ins p 0 z ! skip p a = z ! a" using a h pz by (intro ins_nth_skip) simp_all
  then have "\<exists>i<n. ins p 0 z ! i \<noteq> 0" using a skip_less[OF a(1)] by metis
  moreover have "length (ins p 0 z) = n" using h p by (simp add: length_ins)
  ultimately have "0 < quad_form A (ins p 0 z)" using pd unfolding pos_def_def by blast
  then show "0 < quad_form (submatrix p A) z"
    using quad_form_submatrix[OF A p] h by simp
qed

lemma symmetric_submatrix:
  assumes "symmetric_mat n A" and "p < n"
  shows "symmetric_mat (n - 1) (submatrix p A)"
proof -
  from assms(1) have A: "is_mat n n A"
    and s: "\<And>i j. i < n \<Longrightarrow> j < n \<Longrightarrow> A ! i ! j = A ! j ! i"
    by (simp_all add: symmetric_mat_def)
  show ?thesis
    unfolding symmetric_mat_def
    using is_mat_submatrix[OF A assms(2)] submatrix_nth[OF A] s skip_less
    by simp
qed

lemma skip_surj:
  assumes "i < n" and "i \<noteq> p" and "p < n"
  shows "\<exists>a<n - 1. skip p a = i"
proof (cases "i < p")
  case True
  with assms show ?thesis by (intro exI[of _ i]) (auto simp: skip_def)
next
  case False
  with assms have "p < i" by simp
  with assms show ?thesis by (intro exI[of _ "i - 1"]) (auto simp: skip_def)
qed

lemma write_back_quad_form:
  assumes O: "is_mat n n Om" and p: "p < n" and y: "length y = n - 1" and x: "length x = n"
  defines "m \<equiv> n - 1"
  shows "quad_form (write_back p y d Om) x
       = (\<Sum>a<m. \<Sum>b<m. x ! skip p a * submatrix p Om ! a ! b * x ! skip p b)
         + 2 * x ! p * (\<Sum>a<m. y ! a * x ! skip p a) + (x ! p)\<^sup>2 * d"
proof -
  let ?O' = "write_back p y d Om"
  let ?v = "ins p d y"
  have O': "is_mat n n ?O'" by (rule is_mat_write_back[OF O y p])
  have py: "p \<le> length y" using y p by simp
  have ly: "length y = m" using y by (simp add: m_def)
  have vp: "?v ! p = d" by (rule ins_nth_same[OF py])
  have vs: "?v ! skip p a = y ! a" if "a < m" for a
    using that ly py by (intro ins_nth_skip) simp_all
  have sm: "skip p a < n" if "a < m" for a
    using that skip_less[of a n p] by (simp add: m_def)
  have sk: "(\<Sum>i<n. f i) = f p + (\<Sum>i<m. f (skip p i))" for f :: "nat \<Rightarrow> real"
    unfolding m_def by (rule sum_skip[OF p])
  have sub: "submatrix p Om ! a ! b = Om ! skip p a ! skip p b" if "a < m" "b < m" for a b
    using that submatrix_nth[OF O, of a b p] by (simp add: m_def)
  have e_pp: "?O' ! p ! p = d"
    using write_back_nth[OF O y p p p] vp by simp
  have e_ps: "?O' ! p ! skip p b = y ! b" if "b < m" for b
    using write_back_nth[OF O y p p sm[OF that]] vs[OF that] by simp
  have e_sp: "?O' ! skip p a ! p = y ! a" if "a < m" for a
    using write_back_nth[OF O y p sm[OF that] p] vs[OF that] by (simp add: skip_neq)
  have e_ss: "?O' ! skip p a ! skip p b = submatrix p Om ! a ! b" if "a < m" "b < m" for a b
    using write_back_nth[OF O y p sm[OF that(1)] sm[OF that(2)]] sub[OF that]
    by (simp add: skip_neq)
  have row_p: "(\<Sum>j<n. x ! p * ?O' ! p ! j * x ! j)
      = (x ! p)\<^sup>2 * d + x ! p * (\<Sum>b<m. y ! b * x ! skip p b)"
  proof -
    have "(\<Sum>j<n. x ! p * ?O' ! p ! j * x ! j)
        = x ! p * ?O' ! p ! p * x ! p + (\<Sum>b<m. x ! p * ?O' ! p ! skip p b * x ! skip p b)"
      by (rule sk)
    also have "(\<Sum>b<m. x ! p * ?O' ! p ! skip p b * x ! skip p b)
        = (\<Sum>b<m. x ! p * (y ! b * x ! skip p b))"
      by (intro sum.cong refl) (simp add: e_ps)
    finally show ?thesis
      by (simp add: e_pp power2_eq_square sum_distrib_left)
  qed
  have row_a: "(\<Sum>j<n. x ! skip p a * ?O' ! skip p a ! j * x ! j)
      = x ! p * (y ! a * x ! skip p a)
        + (\<Sum>b<m. x ! skip p a * submatrix p Om ! a ! b * x ! skip p b)" if "a < m" for a
  proof -
    have "(\<Sum>j<n. x ! skip p a * ?O' ! skip p a ! j * x ! j)
        = x ! skip p a * ?O' ! skip p a ! p * x ! p
          + (\<Sum>b<m. x ! skip p a * ?O' ! skip p a ! skip p b * x ! skip p b)"
      by (rule sk)
    also have "(\<Sum>b<m. x ! skip p a * ?O' ! skip p a ! skip p b * x ! skip p b)
        = (\<Sum>b<m. x ! skip p a * submatrix p Om ! a ! b * x ! skip p b)"
      by (intro sum.cong refl) (simp add: e_ss that)
    finally show ?thesis by (simp add: e_sp that)
  qed
  have "quad_form ?O' x = (\<Sum>i<n. \<Sum>j<n. x ! i * ?O' ! i ! j * x ! j)"
    by (rule quad_form_sum[OF O' x])
  also have "\<dots> = (\<Sum>j<n. x ! p * ?O' ! p ! j * x ! j)
       + (\<Sum>a<m. \<Sum>j<n. x ! skip p a * ?O' ! skip p a ! j * x ! j)"
    by (rule sk)
  also have "(\<Sum>a<m. \<Sum>j<n. x ! skip p a * ?O' ! skip p a ! j * x ! j)
      = (\<Sum>a<m. x ! p * (y ! a * x ! skip p a)
            + (\<Sum>b<m. x ! skip p a * submatrix p Om ! a ! b * x ! skip p b))"
    by (rule sum.cong[OF refl]) (simp add: row_a)
  also have "\<dots> = x ! p * (\<Sum>a<m. y ! a * x ! skip p a)
       + (\<Sum>a<m. \<Sum>b<m. x ! skip p a * submatrix p Om ! a ! b * x ! skip p b)"
    by (simp add: sum.distrib sum_distrib_left)
  finally show ?thesis by (simp add: row_p)
qed

lemma write_back_symmetric:
  assumes S: "symmetric_mat n Om" and p: "p < n" and y: "length y = n - 1"
  shows "symmetric_mat n (write_back p y d Om)"
proof -
  from S have O: "is_mat n n Om"
    and s: "\<And>i j. i < n \<Longrightarrow> j < n \<Longrightarrow> Om ! i ! j = Om ! j ! i"
    by (simp_all add: symmetric_mat_def)
  show ?thesis
    unfolding symmetric_mat_def
    using is_mat_write_back[OF O y p] write_back_nth[OF O y p] s by simp
qed

lemma new_diagonal_sum:
  assumes B: "is_mat m m B" and y: "length y = m"
  shows "new_diagonal v y B = 1 / v + (\<Sum>j<m. (\<Sum>i<m. y ! i * B ! i ! j) * y ! j)"
proof -
  have "dot (vecmat y B) y = (\<Sum>j<m. vecmat y B ! j * y ! j)"
    by (rule dot_sum[OF length_vecmat[OF B] y])
  also have "\<dots> = (\<Sum>j<m. (\<Sum>i<m. y ! i * B ! i ! j) * y ! j)"
    by (intro sum.cong refl) (simp add: vecmat_nth[OF B y])
  finally show ?thesis by (simp add: new_diagonal_def)
qed

lemma write_back_pos_def:
  assumes S: "symmetric_mat n Om" and P: "pos_def n Om" and p: "p < n"
    and inv: "is_inverse (n - 1) (submatrix p Om) B"
    and y: "length y = n - 1" and v: "0 < v"
  shows "pos_def n (write_back p y (new_diagonal v y B) Om)"
  unfolding pos_def_def
proof (intro allI impI)
  fix x :: vec assume hx: "length x = n \<and> (\<exists>i<n. x ! i \<noteq> 0)"
  then have lx: "length x = n" by simp
  define m where "m = n - 1"
  define Wm where "Wm = submatrix p Om"
  define d where "d = new_diagonal v y B"
  from S have O: "is_mat n n Om" by (simp add: symmetric_mat_def)
  have Ws: "symmetric_mat m Wm"
    unfolding m_def Wm_def by (rule symmetric_submatrix[OF S p])
  then have W: "is_mat m m Wm"
    and wsym: "\<And>i j. i < m \<Longrightarrow> j < m \<Longrightarrow> Wm ! i ! j = Wm ! j ! i"
    by (simp_all add: symmetric_mat_def)
  have Wp: "pos_def m Wm"
    unfolding m_def Wm_def by (rule pos_def_submatrix[OF O p P])
  from inv have Bm: "is_mat m m B"
    and wb: "\<And>i j. i < m \<Longrightarrow> j < m \<Longrightarrow> (\<Sum>k<m. Wm ! i ! k * B ! k ! j) = kron i j"
    by (simp_all add: is_inverse_iff m_def Wm_def)
  have ly: "length y = m" using y by (simp add: m_def)
  define x2 where "x2 = x ! p"
  define t where "t i = (\<Sum>c<m. B ! i ! c * y ! c)" for i
  define zl where "zl = map (\<lambda>a. x ! skip p a + x2 * t a) [0..<m]"
  have lz: "length zl = m" by (simp add: zl_def)
  have zn: "zl ! a = x ! skip p a + x2 * t a" if "a < m" for a
    using that by (simp add: zl_def)
  have Q: "quad_form (write_back p y d Om) x
       = (\<Sum>a<m. \<Sum>b<m. x ! skip p a * Wm ! a ! b * x ! skip p b)
         + 2 * x2 * (\<Sum>a<m. y ! a * x ! skip p a) + x2\<^sup>2 * d"
    unfolding m_def Wm_def x2_def by (rule write_back_quad_form[OF O p y lx])
  have dsum: "d = 1 / v + (\<Sum>j<m. (\<Sum>i<m. y ! i * B ! i ! j) * y ! j)"
    unfolding d_def by (rule new_diagonal_sum[OF Bm ly])
  have Z: "quad_form Wm zl = (\<Sum>a<m. \<Sum>b<m. zl ! a * Wm ! a ! b * zl ! b)"
    by (rule quad_form_sum[OF W lz])
  also have "\<dots> = (\<Sum>a<m. \<Sum>b<m. (x ! skip p a + x2 * (\<Sum>c<m. B ! a ! c * y ! c)) * Wm ! a ! b
                        * (x ! skip p b + x2 * (\<Sum>c<m. B ! b ! c * y ! c)))"
    by (intro sum.cong refl) (simp add: zn t_def)
  also have "\<dots> = (\<Sum>i<m. \<Sum>j<m. x ! skip p i * Wm ! i ! j * x ! skip p j)
         + 2 * x2 * (\<Sum>i<m. y ! i * x ! skip p i)
         + x2\<^sup>2 * (\<Sum>j<m. (\<Sum>i<m. y ! i * B ! i ! j) * y ! j)"
    by (rule schur_identity[where w = "\<lambda>i j. Wm ! i ! j" and b = "\<lambda>i j. B ! i ! j"
          and y = "\<lambda>i. y ! i" and x = "\<lambda>a. x ! skip p a", OF wb wsym])
  finally have split: "quad_form (write_back p y d Om) x = quad_form Wm zl + x2\<^sup>2 / v"
    using Q dsum by (simp add: algebra_simps)
  have nonneg: "0 \<le> quad_form Wm zl" by (rule pos_def_nonneg[OF Wp W lz])
  have "0 < quad_form Wm zl + x2\<^sup>2 / v"
  proof (cases "x2 = 0")
    case False
    then have "0 < x2\<^sup>2 / v" using v by simp
    with nonneg show ?thesis by linarith
  next
    case True
    from hx obtain i where i: "i < n" "x ! i \<noteq> 0" by blast
    with True have "i \<noteq> p" by (auto simp: x2_def)
    from skip_surj[OF i(1) this p] obtain a where a: "a < m" "skip p a = i"
      by (auto simp: m_def)
    then have "zl ! a \<noteq> 0" using i True by (simp add: zn)
    then have "0 < quad_form Wm zl"
      using Wp lz a(1) unfolding pos_def_def by blast
    with True show ?thesis by simp
  qed
  then show "0 < quad_form (write_back p y (new_diagonal v y B) Om) x"
    using split by (simp add: d_def)
qed

lemma write_back_spd:
  assumes "spd n Om" and "p < n" and "is_inverse (n - 1) (submatrix p Om) B"
    and "length y = n - 1" and "0 < v"
  shows "spd n (write_back p y (new_diagonal v y B) Om)"
  using assms write_back_symmetric write_back_pos_def unfolding spd_def by blast

section \<open>The coordinate solver\<close>

lemma sum_list_map2_nth:
  assumes "length xs = n" and "length ys = n"
  shows "sum_list (map2 f xs ys) = (\<Sum>k<n. f (xs ! k) (ys ! k) :: real)"
proof -
  have "sum_list (map2 f xs ys) = (\<Sum>i = 0..<length (map2 f xs ys). map2 f xs ys ! i)"
    by (rule sum_list_sum_nth)
  also have "\<dots> = (\<Sum>k<n. f (xs ! k) (ys ! k))"
    using assms by (intro sum.cong) (auto simp: atLeast0LessThan)
  finally show ?thesis .
qed

lemma quad_trust_region_Some:
  assumes "length c = n" and "length q = n" and "\<forall>k<n. 1 + alpha * q ! k \<noteq> 0"
  shows "quad_trust_region alpha q two_ccq (map2 (*) c c) (rho\<^sup>2)
         = Some (trust_region_g rho c q alpha)"
proof -
  have nz: "\<not> (\<exists>qk\<in>set q. 1 + alpha * qk = 0)"
    using assms(2,3) by (auto simp: in_set_conv_nth)
  have "sum_list (map2 (\<lambda>c qk. c / (1 + alpha * qk)\<^sup>2) (map2 (*) c c) q)
      = (\<Sum>k<n. (map2 (*) c c ! k) / (1 + alpha * q ! k)\<^sup>2)"
    by (rule sum_list_map2_nth) (simp_all add: assms)
  also have "\<dots> = (\<Sum>k<n. (c ! k)\<^sup>2 / (1 + alpha * q ! k)\<^sup>2)"
    by (intro sum.cong refl) (simp add: assms power2_eq_square)
  finally show ?thesis using nz assms(1) by (simp add: quad_trust_region_def trust_region_g_def)
qed

lemma quad_trust_region_None:
  assumes "length q = n" and "\<not> (\<forall>k<n. 1 + alpha * q ! k \<noteq> 0)"
  shows "quad_trust_region alpha q two_ccq cc rho2 = None"
    and "quad_trust_region_deriv alpha q two_ccq cc rho2 = None"
proof -
  from assms obtain k where "k < length q" "1 + alpha * q ! k = 0" by auto
  then have "\<exists>qk\<in>set q. 1 + alpha * qk = 0" using nth_mem by blast
  then show "quad_trust_region alpha q two_ccq cc rho2 = None"
    and "quad_trust_region_deriv alpha q two_ccq cc rho2 = None"
    by (simp_all add: quad_trust_region_def quad_trust_region_deriv_def)
qed

lemma quad_trust_region_deriv_Some:
  assumes "length c = n" and "length q = n" and "\<forall>k<n. 1 + alpha * q ! k \<noteq> 0"
  shows "quad_trust_region_deriv alpha q (map2 (\<lambda>a b. 2 * a * b) (map2 (*) c c) q) cc rho2
         = Some (\<Sum>k<n. 2 * (c ! k)\<^sup>2 * q ! k / (1 + alpha * q ! k) ^ 3)"
proof -
  have nz: "\<not> (\<exists>qk\<in>set q. 1 + alpha * qk = 0)"
    using assms(2,3) by (auto simp: in_set_conv_nth)
  have "sum_list (map2 (\<lambda>t qk. t / (1 + alpha * qk) ^ 3)
            (map2 (\<lambda>a b. 2 * a * b) (map2 (*) c c) q) q)
      = (\<Sum>k<n. (map2 (\<lambda>a b. 2 * a * b) (map2 (*) c c) q ! k) / (1 + alpha * q ! k) ^ 3)"
    by (rule sum_list_map2_nth) (simp_all add: assms)
  also have "\<dots> = (\<Sum>k<n. 2 * (c ! k)\<^sup>2 * q ! k / (1 + alpha * q ! k) ^ 3)"
    by (intro sum.cong refl) (simp add: assms power2_eq_square)
  finally show ?thesis using nz by (simp add: quad_trust_region_deriv_def)
qed

lemma dot_self_sum: "dot c c = (\<Sum>k<length c. (c ! k)\<^sup>2)"
  using dot_sum[of c "length c" c] by (simp add: power2_eq_square)

text \<open>The tangent of a term of g lies above it.\<close>

lemma tangent_term:
  fixes s s' cc :: real
  assumes "0 < s" and "s \<le> s'" and "0 \<le> cc"
  shows "cc / s\<^sup>2 - 2 * cc * (s' - s) / s ^ 3 \<le> cc / s'\<^sup>2"
proof -
  have s': "0 < s'" using assms by simp
  have "0 \<le> (s' - s)\<^sup>2 * (2 * s' + s)" using assms s' by simp
  also have "(s' - s)\<^sup>2 * (2 * s' + s) = 2 * s' ^ 3 - 3 * s * s'\<^sup>2 + s ^ 3"
    by (simp add: power2_eq_square power3_eq_cube algebra_simps)
  finally have k: "0 \<le> 2 * s' ^ 3 - 3 * s * s'\<^sup>2 + s ^ 3" .
  have "1 / s\<^sup>2 - 2 * (s' - s) / s ^ 3 \<le> 1 / s'\<^sup>2"
  proof -
    have "1 / s\<^sup>2 - 2 * (s' - s) / s ^ 3 = (3 * s - 2 * s') / s ^ 3"
      using assms(1) by (simp add: field_simps power2_eq_square power3_eq_cube)
    also have "\<dots> \<le> 1 / s'\<^sup>2"
    proof -
      have "(3 * s - 2 * s') * s'\<^sup>2 \<le> s ^ 3" using k by (simp add: algebra_simps power2_eq_square power3_eq_cube)
      then show ?thesis using assms(1) s' by (simp add: field_simps)
    qed
    finally show ?thesis .
  qed
  then have "cc * (1 / s\<^sup>2 - 2 * (s' - s) / s ^ 3) \<le> cc * (1 / s'\<^sup>2)"
    using assms(3) by (rule mult_left_mono)
  then show ?thesis by (simp add: algebra_simps)
qed

lemma newton_loop_invariant:
  assumes "newton_loop func fprime tol n p0 = Inr a" and "I p0"
    and step: "\<And>p fder fval. I p \<Longrightarrow> fprime p = Some fder \<Longrightarrow> fder \<noteq> 0
                 \<Longrightarrow> func p = Some fval \<Longrightarrow> I (p - fval / fder)"
  shows "I a"
  using assms(1,2)
proof (induction n arbitrary: p0)
  case 0
  then show ?case by simp
next
  case (Suc n)
  from Suc.prems(1) obtain fder where fd: "fprime p0 = Some fder"
    by (auto split: option.splits)
  show ?case
  proof (cases "fder = 0")
    case True
    with Suc.prems fd show ?thesis by simp
  next
    case False
    with Suc.prems(1) fd obtain fval where fv: "func p0 = Some fval"
      by (auto split: option.splits)
    have I1: "I (p0 - fval / fder)" by (rule step[OF Suc.prems(2) fd False fv])
    show ?thesis
    proof (cases "\<bar>p0 - fval / fder - p0\<bar> < tol")
      case True
      with Suc.prems(1) fd fv False I1 show ?thesis by (simp add: Let_def)
    next
      case nt: False
      with Suc.prems(1) fd fv False
      have "newton_loop func fprime tol n (p0 - fval / fder) = Inr a" by (simp add: Let_def)
      from Suc.IH[OF this I1] show ?thesis .
    qed
  qed
qed

lemma newton_step_below:
  fixes c q :: vec
  assumes lc: "length c = n" and lq: "length q = n" and qpos: "\<forall>k<n. 0 < q ! k"
    and a: "0 \<le> a" and g: "trust_region_g rho c q a \<le> 0"
    and D: "D = (\<Sum>k<n. 2 * (c ! k)\<^sup>2 * q ! k / (1 + a * q ! k) ^ 3)" and D0: "D \<noteq> 0"
  shows "a \<le> a - trust_region_g rho c q a / D
       \<and> trust_region_g rho c q (a - trust_region_g rho c q a / D) \<le> 0"
proof -
  let ?G = "trust_region_g rho c q a"
  define dl where "dl = - ?G / D"
  have sp: "0 < 1 + a * q ! k" if "k < n" for k
  proof -
    have "0 \<le> a * q ! k" using a qpos that by (simp add: less_imp_le)
    then show ?thesis by simp
  qed
  have Dnn: "0 \<le> D" unfolding D
  proof (rule sum_nonneg)
    fix k assume "k \<in> {..<n}"
    then have k: "k < n" by simp
    have "0 \<le> 2 * (c ! k)\<^sup>2 * q ! k" using qpos k by (simp add: less_imp_le)
    moreover have "0 < (1 + a * q ! k) ^ 3" using sp[OF k] by simp
    ultimately show "0 \<le> 2 * (c ! k)\<^sup>2 * q ! k / (1 + a * q ! k) ^ 3" by simp
  qed
  with D0 have Dpos: "0 < D" by simp
  have dl0: "0 \<le> dl" unfolding dl_def using g Dpos by (simp add: field_simps)
  have a': "a - ?G / D = a + dl" by (simp add: dl_def)
  have tangent: "(c ! k)\<^sup>2 / (1 + a * q ! k)\<^sup>2 - dl * (2 * (c ! k)\<^sup>2 * q ! k / (1 + a * q ! k) ^ 3)
              \<le> (c ! k)\<^sup>2 / (1 + (a + dl) * q ! k)\<^sup>2" if k: "k < n" for k
  proof -
    have le: "1 + a * q ! k \<le> 1 + (a + dl) * q ! k"
      using dl0 qpos k by (simp add: algebra_simps less_imp_le)
    have t: "(c ! k)\<^sup>2 / (1 + a * q ! k)\<^sup>2
            - 2 * (c ! k)\<^sup>2 * ((1 + (a + dl) * q ! k) - (1 + a * q ! k)) / (1 + a * q ! k) ^ 3
          \<le> (c ! k)\<^sup>2 / (1 + (a + dl) * q ! k)\<^sup>2"
      by (rule tangent_term[OF sp[OF k] le]) simp
    have e: "2 * (c ! k)\<^sup>2 * ((1 + (a + dl) * q ! k) - (1 + a * q ! k))
                 = dl * (2 * (c ! k)\<^sup>2 * q ! k)" by (simp add: algebra_simps)
    show ?thesis using t unfolding e by (simp only: times_divide_eq_right)
  qed
  have "(\<Sum>k<n. (c ! k)\<^sup>2 / (1 + a * q ! k)\<^sup>2
              - dl * (2 * (c ! k)\<^sup>2 * q ! k / (1 + a * q ! k) ^ 3))
        \<le> (\<Sum>k<n. (c ! k)\<^sup>2 / (1 + (a + dl) * q ! k)\<^sup>2)"
    by (rule sum_mono, rule tangent) simp
  then have "(\<Sum>k<n. (c ! k)\<^sup>2 / (1 + a * q ! k)\<^sup>2) - dl * D
        \<le> (\<Sum>k<n. (c ! k)\<^sup>2 / (1 + (a + dl) * q ! k)\<^sup>2)"
    by (simp add: sum_subtractf sum_distrib_left D)
  moreover have "dl * D = - ?G" using Dpos by (simp add: dl_def)
  ultimately have "trust_region_g rho c q (a + dl) \<le> 0"
    by (simp add: trust_region_g_def lc)
  with dl0 show ?thesis by (simp add: a')
qed

lemma root_find_below:
  fixes c q :: vec
  assumes lc: "length c = n" and lq: "length q = n" and qpos: "\<forall>k<n. 0 < q ! k"
    and rho: "0 \<le> rho" and big: "\<not> norm2 c \<le> rho"
    and res: "root_find rho c q = Inr alpha"
  shows "0 \<le> alpha \<and> trust_region_g rho c q alpha \<le> 0"
proof -
  let ?cc = "map2 (*) c c"
  let ?t = "map2 (\<lambda>a b. 2 * a * b) ?cc q"
  let ?I = "\<lambda>a. 0 \<le> a \<and> trust_region_g rho c q a \<le> 0"
  have nz: "\<forall>k<n. 1 + a * q ! k \<noteq> 0" if "0 \<le> a" for a
  proof (intro allI impI)
    fix k assume "k < n"
    then have "0 \<le> a * q ! k" using that qpos by (simp add: less_imp_le)
    then show "1 + a * q ! k \<noteq> 0" by simp
  qed
  have I0: "?I 0"
  proof -
    have "rho < sqrt (\<Sum>k<length c. (c ! k)\<^sup>2)" using big by (simp add: norm2_def)
    then have "rho\<^sup>2 < (\<Sum>k<length c. (c ! k)\<^sup>2)"
      using rho by (metis real_sqrt_abs abs_of_nonneg real_sqrt_less_iff)
    then show ?thesis by (simp add: trust_region_g_def)
  qed
  from res have nl: "newton_loop (\<lambda>a. quad_trust_region a q ?t ?cc (rho\<^sup>2))
        (\<lambda>a. quad_trust_region_deriv a q ?t ?cc (rho\<^sup>2)) (15 / 10 ^ 7) 50 0 = Inr alpha"
    by (simp add: root_find_def newton_def Let_def)
  show ?thesis
  proof (rule newton_loop_invariant[OF nl, where I = ?I])
    show "?I 0" by (rule I0)
  next
    fix p fder fval
    assume I: "?I p" and fd: "quad_trust_region_deriv p q ?t ?cc (rho\<^sup>2) = Some fder"
      and f0: "fder \<noteq> 0" and fv: "quad_trust_region p q ?t ?cc (rho\<^sup>2) = Some fval"
    from I have p0: "0 \<le> p" and gp: "trust_region_g rho c q p \<le> 0" by simp_all
    have e1: "fval = trust_region_g rho c q p"
      using quad_trust_region_Some[OF lc lq nz[OF p0], of ?t rho] fv by simp
    have e2: "fder = (\<Sum>k<n. 2 * (c ! k)\<^sup>2 * q ! k / (1 + p * q ! k) ^ 3)"
      using quad_trust_region_deriv_Some[OF lc lq nz[OF p0], of ?cc "rho\<^sup>2"] fd by simp
    from newton_step_below[OF lc lq qpos p0 gp e2 f0]
    show "?I (p - fval / fder)" unfolding e1 using p0 by linarith
  qed
qed

lemma coordinate_unfold:
  "coordinate rho nt ns emp Winv u p m (y, w) =
     (let c = map (coord_c ns emp Winv y u p m) [0..<nt];
          q = map (coord_q ns emp Winv p m) [0..<nt]
      in if norm2 c \<le> rho then Inr (set_col m (map (\<lambda>k. 0) [0..<nt]) y, w)
         else (case root_find rho c q of
                 Inl e \<Rightarrow> Inl e
               | Inr alpha \<Rightarrow>
                   (case quad_trust_region alpha q (map2 (\<lambda>a b. 2 * a * b) (map2 (*) c c) q)
                           (map2 (*) c c) (rho\<^sup>2) of
                      None \<Rightarrow> Inl NonFinite
                    | Some remainder \<Rightarrow>
                        Inr (set_col m (map2 (\<lambda>ck qk. (alpha * ck) / (1 + alpha * qk)) c q) y,
                             if \<bar>remainder\<bar> > 1 / 10 then Suc w else w))))"
proof -
  have c: "map (\<lambda>k. - (ns ! k) * (emp ! k ! p ! p
              * dot (map (\<lambda>k. del m (col (Winv ! k) m)) [0..<nt] ! k)
                  (map (\<lambda>k. del m (y ! k)) [0..<nt] ! k) + u ! k ! m)) [0..<nt]
         = map (coord_c ns emp Winv y u p m) [0..<nt]"
    by (rule map_cong[OF refl]) (simp add: coord_c_def)
  have q: "map (\<lambda>k. ns ! k * emp ! k ! p ! p * (Winv ! k ! m ! m)) [0..<nt]
         = map (coord_q ns emp Winv p m) [0..<nt]"
    by (simp add: coord_q_def)
  show ?thesis
    unfolding coordinate_def Let_def fst_conv snd_conv c q norm2_def dot_self_sum[symmetric]
    by (rule refl)
qed

lemma set_col_row:
  assumes "length y = nt" and "length v = nt" and "k < nt"
  shows "set_col m v y ! k = (y ! k)[m := v ! k]"
  using assms by (simp add: set_col_def)

lemma newton_loop_50:
  "newton_loop func fprime tol 50 p0 = newton_loop func fprime tol (Suc 49) p0"
  by simp

lemma sqrt_quarter: "sqrt (1 / 4) = 1 / 2"
  by (rule real_sqrt_unique) (simp_all add: power2_eq_square)

lemma ill_root_find: "root_find (1 / 4) [1 / 2] [10000000] = Inr (3 / 80000000)"
  unfolding root_find_def newton_def Let_def newton_loop_50 newton_loop.simps
  by (simp add: quad_trust_region_def quad_trust_region_deriv_def power2_eq_square
      power3_eq_cube)

lemma ill_residual: "trust_region_g (1 / 4) [1 / 2] [10000000] (3 / 80000000) = - 135 / 1936"
  by (simp add: trust_region_g_def power2_eq_square)

lemma ill_c:
  "map (coord_c [1] [[[1, - 1 / 2], [- 1 / 2, 1]]] [[[10000000]]] [[0]] [[- 1 / 2]] 0 0) [0..<1]
     = [1 / 2]"
  by (simp add: coord_c_def del_def col_def dot_def upt_0_1)

lemma ill_q:
  "map (coord_q [1] [[[1, - 1 / 2], [- 1 / 2, 1]]] [[[10000000]]] 0 0) [0..<1] = [10000000]"
  by (simp add: coord_q_def upt_0_1)

lemma ill_norm: "norm2 [1 / 2] = 1 / 2"
  by (simp add: norm2_def power2_eq_square sqrt_quarter)

lemma ill_coordinate:
  "coordinate (1 / 4) 1 [1] [[[1, - 1 / 2], [- 1 / 2, 1]]] [[[10000000]]] [[- 1 / 2]] 0 0
     ([[0]], 0) = Inr ([[3 / 220000000]], 0)"
  unfolding coordinate_unfold Let_def ill_c ill_q ill_norm ill_root_find
  by (simp add: quad_trust_region_def set_col_def power2_eq_square)

lemma newton_loop_first:
  assumes "newton_loop func fprime tol n p0 = Inr a"
  shows "\<exists>j\<le>n. a = newton_iterate func fprime j p0
           \<and> (\<forall>i. Suc i < j \<longrightarrow>
                 \<not> \<bar>newton_iterate func fprime (Suc i) p0 - newton_iterate func fprime i p0\<bar> < tol)
           \<and> ((fprime a = Some 0 \<and> j < n)
              \<or> (1 \<le> j \<and> \<bar>a - newton_iterate func fprime (j - 1) p0\<bar> < tol))"
  using assms
proof (induction n arbitrary: p0)
  case 0
  then show ?case by simp
next
  case (Suc n)
  from Suc.prems obtain fder where fd: "fprime p0 = Some fder"
    by (auto split: option.splits)
  show ?case
  proof (cases "fder = 0")
    case True
    with Suc.prems fd have "a = p0" by simp
    with True fd show ?thesis by (intro exI[of _ 0]) simp
  next
    case False
    with Suc.prems fd obtain fval where fv: "func p0 = Some fval"
      by (auto split: option.splits)
    let ?p = "p0 - fval / fder"
    have it1: "newton_iterate func fprime (Suc j) p0 = newton_iterate func fprime j ?p" for j
      by (simp add: fd fv)
    show ?thesis
    proof (cases "\<bar>?p - p0\<bar> < tol")
      case True
      with Suc.prems fd fv False have "a = ?p" by (simp add: Let_def)
      with True show ?thesis by (intro exI[of _ 1]) (simp add: fd fv)
    next
      case nt: False
      with Suc.prems fd fv False
      have "newton_loop func fprime tol n ?p = Inr a" by (simp add: Let_def)
      from Suc.IH[OF this] obtain j where j: "j \<le> n" "a = newton_iterate func fprime j ?p"
        "\<forall>i. Suc i < j \<longrightarrow>
           \<not> \<bar>newton_iterate func fprime (Suc i) ?p - newton_iterate func fprime i ?p\<bar> < tol"
        "(fprime a = Some 0 \<and> j < n)
           \<or> (1 \<le> j \<and> \<bar>a - newton_iterate func fprime (j - 1) ?p\<bar> < tol)"
        by blast
      have prev: "newton_iterate func fprime (j - 1) ?p = newton_iterate func fprime (Suc j - 1) p0"
        if "1 \<le> j"
      proof -
        from that obtain i where "j = Suc i" by (cases j) auto
        then show ?thesis using it1[of i] by simp
      qed
      have steps: "\<not> \<bar>newton_iterate func fprime (Suc i) p0 - newton_iterate func fprime i p0\<bar> < tol"
        if "Suc i < Suc j" for i
      proof (cases i)
        case 0
        then show ?thesis using nt by (simp add: fd fv)
      next
        case (Suc i')
        then have "Suc i' < j" using that by simp
        with j(3) show ?thesis unfolding Suc it1 by blast
      qed
      have a: "a = newton_iterate func fprime (Suc j) p0" using j(2) it1[of j] by simp
      have ex: "(fprime a = Some 0 \<and> Suc j < Suc n)
           \<or> (1 \<le> Suc j \<and> \<bar>a - newton_iterate func fprime (Suc j - 1) p0\<bar> < tol)"
        using j(4) prev by auto
      show ?thesis
        apply (rule exI[of _ "Suc j"])
        using j(1) a steps ex by blast
    qed
  qed
qed

lemma newton_loop_exhausted:
  assumes "newton_loop func fprime tol n p0 = Inl RuntimeError"
  shows "\<forall>i<n. \<not> \<bar>newton_iterate func fprime (Suc i) p0 - newton_iterate func fprime i p0\<bar> < tol"
  using assms
proof (induction n arbitrary: p0)
  case 0
  then show ?case by simp
next
  case (Suc n)
  from Suc.prems obtain fder where fd: "fprime p0 = Some fder"
    by (auto split: option.splits)
  from Suc.prems fd have nz: "fder \<noteq> 0" by (auto split: if_splits)
  with Suc.prems fd obtain fval where fv: "func p0 = Some fval"
    by (auto split: option.splits)
  let ?p = "p0 - fval / fder"
  have it1: "newton_iterate func fprime (Suc j) p0 = newton_iterate func fprime j ?p" for j
    by (simp add: fd fv)
  from Suc.prems fd fv nz have nt: "\<not> \<bar>?p - p0\<bar> < tol"
    by (auto simp: Let_def split: if_splits)
  with Suc.prems fd fv nz have "newton_loop func fprime tol n ?p = Inl RuntimeError"
    by (simp add: Let_def)
  from Suc.IH[OF this]
  have IH: "\<forall>i<n. \<not> \<bar>newton_iterate func fprime (Suc i) ?p - newton_iterate func fprime i ?p\<bar> < tol" .
  show ?case
  proof (intro allI impI)
    fix i assume i: "i < Suc n"
    show "\<not> \<bar>newton_iterate func fprime (Suc i) p0 - newton_iterate func fprime i p0\<bar> < tol"
    proof (cases i)
      case 0
      then show ?thesis using nt by (simp add: fd fv)
    next
      case (Suc i')
      then have "i' < n" using i by simp
      with IH show ?thesis unfolding Suc it1 by blast
    qed
  qed
qed

lemma trust_region_g_strict_mono:
  fixes c q :: vec
  assumes lc: "length c = n" and qpos: "\<forall>k<n. 0 < q ! k"
    and nz: "\<exists>k<n. c ! k \<noteq> 0" and a: "0 \<le> a" and ab: "a < b"
  shows "trust_region_g rho c q a < trust_region_g rho c q b"
proof -
  have sp: "0 < 1 + a * q ! k" if "k < n" for k
  proof -
    have "0 \<le> a * q ! k" using a qpos that by (simp add: less_imp_le)
    then show ?thesis by simp
  qed
  have lt: "1 + a * q ! k < 1 + b * q ! k" if "k < n" for k
    using ab qpos that by simp
  have sq: "(1 + a * q ! k)\<^sup>2 < (1 + b * q ! k)\<^sup>2" if "k < n" for k
    using sp[OF that] lt[OF that] by (simp add: power_strict_mono less_imp_le)
  have pp: "0 < (1 + b * q ! k)\<^sup>2 * (1 + a * q ! k)\<^sup>2" if "k < n" for k
  proof -
    have pa: "0 < (1 + a * q ! k)\<^sup>2" using sp[OF that] by simp
    then have pb: "0 < (1 + b * q ! k)\<^sup>2" using sq[OF that] by linarith
    show ?thesis using pb pa by (rule mult_pos_pos)
  qed
  have le: "(c ! k)\<^sup>2 / (1 + b * q ! k)\<^sup>2 \<le> (c ! k)\<^sup>2 / (1 + a * q ! k)\<^sup>2" if "k < n" for k
    by (rule divide_left_mono[OF less_imp_le[OF sq[OF that]] zero_le_power2 pp[OF that]])
  from nz obtain k0 where k0: "k0 < n" "c ! k0 \<noteq> 0" by blast
  have c0: "0 < (c ! k0)\<^sup>2" using k0(2) by simp
  have st: "(c ! k0)\<^sup>2 / (1 + b * q ! k0)\<^sup>2 < (c ! k0)\<^sup>2 / (1 + a * q ! k0)\<^sup>2"
    by (rule divide_strict_left_mono[OF sq[OF k0(1)] c0 pp[OF k0(1)]])
  have "(\<Sum>k<n. (c ! k)\<^sup>2 / (1 + b * q ! k)\<^sup>2) < (\<Sum>k<n. (c ! k)\<^sup>2 / (1 + a * q ! k)\<^sup>2)"
    by (rule sum_strict_mono_ex1) (use le st k0 in auto)
  then show ?thesis by (simp add: trust_region_g_def lc)
qed

lemma norm2_exceeds:
  fixes c :: vec
  assumes "0 \<le> rho" and "\<not> norm2 c \<le> rho"
  shows "\<exists>k<length c. c ! k \<noteq> 0"
proof (rule ccontr)
  assume "\<not> ?thesis"
  then have "(\<Sum>k<length c. (c ! k)\<^sup>2) = 0" by simp
  then have "norm2 c = 0" by (simp add: norm2_def)
  with assms show False by simp
qed

lemma root_find_first:
  fixes c q :: vec and rho :: real
  defines "g \<equiv> \<lambda>a. quad_trust_region a q (map2 (\<lambda>a b. 2 * a * b) (map2 (*) c c) q)
                      (map2 (*) c c) (rho\<^sup>2)"
  defines "g' \<equiv> \<lambda>a. quad_trust_region_deriv a q (map2 (\<lambda>a b. 2 * a * b) (map2 (*) c c) q)
                      (map2 (*) c c) (rho\<^sup>2)"
  assumes "root_find rho c q = Inr alpha"
  shows "\<exists>j\<le>50. alpha = newton_iterate g g' j 0
           \<and> (\<forall>i. Suc i < j \<longrightarrow>
                 \<not> \<bar>newton_iterate g g' (Suc i) 0 - newton_iterate g g' i 0\<bar> < 15 / 10 ^ 7)
           \<and> ((g' alpha = Some 0 \<and> j < 50)
              \<or> (1 \<le> j \<and> \<bar>alpha - newton_iterate g g' (j - 1) 0\<bar> < 15 / 10 ^ 7))"
proof -
  have "newton_loop g g' (15 / 10 ^ 7) 50 0 = Inr alpha"
    using assms(3) unfolding root_find_def Let_def newton_def g_def g'_def .
  from newton_loop_first[OF this] show ?thesis .
qed

lemma root_find_exhausted:
  fixes c q :: vec and rho :: real
  defines "g \<equiv> \<lambda>a. quad_trust_region a q (map2 (\<lambda>a b. 2 * a * b) (map2 (*) c c) q)
                      (map2 (*) c c) (rho\<^sup>2)"
  defines "g' \<equiv> \<lambda>a. quad_trust_region_deriv a q (map2 (\<lambda>a b. 2 * a * b) (map2 (*) c c) q)
                      (map2 (*) c c) (rho\<^sup>2)"
  assumes "root_find rho c q = Inl RuntimeError"
  shows "\<forall>i<50. \<not> \<bar>newton_iterate g g' (Suc i) 0 - newton_iterate g g' i 0\<bar> < 15 / 10 ^ 7"
proof -
  have "newton_loop g g' (15 / 10 ^ 7) 50 0 = Inl RuntimeError"
    using assms(3) unfolding root_find_def Let_def newton_def g_def g'_def .
  from newton_loop_exhausted[OF this] show ?thesis .
qed

lemma trust_region_deriv_pos:
  fixes c q :: vec
  assumes lc: "length c = n" and lq: "length q = n" and qpos: "\<forall>k<n. 0 < q ! k"
    and nz: "\<exists>k<n. c ! k \<noteq> 0" and a: "0 \<le> a"
  shows "quad_trust_region_deriv a q (map2 (\<lambda>a b. 2 * a * b) (map2 (*) c c) q) cc rho2
           \<noteq> Some 0"
proof -
  have sp: "0 < 1 + a * q ! k" if "k < n" for k
  proof -
    have "0 \<le> a * q ! k" using a qpos that by (simp add: less_imp_le)
    then show ?thesis by simp
  qed
  then have nzd: "\<forall>k<n. 1 + a * q ! k \<noteq> 0" by (simp add: less_imp_neq[THEN not_sym])
  have nn: "0 \<le> 2 * (c ! k)\<^sup>2 * q ! k / (1 + a * q ! k) ^ 3" if "k < n" for k
  proof -
    have "0 \<le> 2 * (c ! k)\<^sup>2 * q ! k" using qpos that by (simp add: less_imp_le)
    moreover have "0 < (1 + a * q ! k) ^ 3" using sp[OF that] by simp
    ultimately show ?thesis by simp
  qed
  from nz obtain k0 where k0: "k0 < n" "c ! k0 \<noteq> 0" by blast
  have pos: "0 < 2 * (c ! k0)\<^sup>2 * q ! k0 / (1 + a * q ! k0) ^ 3"
  proof -
    have "0 < 2 * (c ! k0)\<^sup>2 * q ! k0" using qpos k0 by simp
    moreover have "0 < (1 + a * q ! k0) ^ 3" using sp[OF k0(1)] by simp
    ultimately show ?thesis by simp
  qed
  have "0 < (\<Sum>k<n. 2 * (c ! k)\<^sup>2 * q ! k / (1 + a * q ! k) ^ 3)"
    by (rule sum_pos2[of _ k0]) (use k0 pos nn in auto)
  then show ?thesis
    unfolding quad_trust_region_deriv_Some[OF lc lq nzd] by simp
qed

lemma root_find_not_above:
  fixes c q :: vec
  assumes lc: "length c = n" and lq: "length q = n" and qpos: "\<forall>k<n. 0 < q ! k"
    and rho: "0 \<le> rho" and big: "\<not> norm2 c \<le> rho"
    and res: "root_find rho c q = Inr alpha"
    and r: "0 \<le> r" and root: "trust_region_g rho c q r = 0"
  shows "alpha \<le> r"
proof (rule ccontr)
  assume "\<not> alpha \<le> r"
  then have lt: "r < alpha" by simp
  have nz: "\<exists>k<n. c ! k \<noteq> 0" using norm2_exceeds[OF rho big] lc by simp
  have "trust_region_g rho c q r < trust_region_g rho c q alpha"
    by (rule trust_region_g_strict_mono[OF lc qpos nz r lt])
  moreover have "trust_region_g rho c q alpha \<le> 0"
    using root_find_below[OF lc lq qpos rho big res] by simp
  ultimately show False using root by simp
qed

lemma sqrt_4_25: "sqrt (4 / 25) = 2 / 5"
  by (rule real_sqrt_unique) (simp_all add: power2_eq_square)

lemma far_root_find: "root_find (1 / 10) [2 / 5] [1000000] = Inr (3 / 6400000)"
  unfolding root_find_def newton_def Let_def newton_loop_50 newton_loop.simps
  by (simp add: quad_trust_region_def quad_trust_region_deriv_def power2_eq_square
      power3_eq_cube)

lemma far_residual:
  "trust_region_g (1 / 10) [2 / 5] [1000000] (3 / 6400000) = - 567 / 8836"
  by (simp add: trust_region_g_def power2_eq_square)

lemma far_root: "trust_region_g (1 / 10) [2 / 5] [1000000] (3 / 1000000) = 0"
  by (simp add: trust_region_g_def power2_eq_square)

lemma far_c:
  "map (coord_c [1] [[[1, - (2 / 5)], [- (2 / 5), 1]]] [[[1000000]]] [[0]] [[- (2 / 5)]] 0 0) [0..<Suc 0]
     = [2 / 5]"
  by (simp add: coord_c_def del_def col_def dot_def)

lemma far_q:
  "map (coord_q [1] [[[1, - (2 / 5)], [- (2 / 5), 1]]] [[[1000000]]] 0 0) [0..<Suc 0] = [1000000]"
  by (simp add: coord_q_def)

lemma far_norm: "norm2 [2 / 5] = 2 / 5"
  by (simp add: norm2_def power2_eq_square sqrt_4_25)

lemma far_coordinate:
  "coordinate (1 / 10) (Suc 0) [1] [[[1, - (2 / 5)], [- (2 / 5), 1]]] [[[1000000]]] [[- (2 / 5)]] 0 0
     ([[0]], 0) = Inr ([[3 / 23500000]], 0)"
  unfolding coordinate_unfold Let_def far_c far_q far_norm far_root_find
  by (simp add: quad_trust_region_def set_col_def power2_eq_square)

lemma far_step:
  "step_p small_lib (1 / 10) (Suc 0) 2 [1] [[[1, - (2 / 5)], [- (2 / 5), 1]]] 0
      \<lparr>cur_omega = [[[1, 0], [0, 1 / 1000000]]], cur_W = [], cur_Winv = [], n_warned = 0\<rparr>
   = Inr \<lparr>cur_omega = [[[1 + (3 / 23500000) * (3 / 23500000) * 1000000, 3 / 23500000],
                         [3 / 23500000, 1 / 1000000]]],
          cur_W = [[[1 / 1000000]]], cur_Winv = [[[1000000]]], n_warned = 0\<rparr>"
proof -
  have m: "maintain small_lib (Suc 0) 0 [[[1, 0], [0, 1 / 1000000]]] ([], [])
             = Inr ([[[1 / 1000000]]], [[[1000000]]])"
    by (simp add: maintain_def small_lib_def eval_arrays Let_def)
  have y: "map (\<lambda>k. del 0 (col ([[[1, 0], [0, 1 / 1000000]]] ! k) 0)) [0..<Suc 0] = ([[0]] :: mat)"
    by (simp add: eval_arrays)
  have u: "map (\<lambda>k. del 0 (col ([[[1, - (2 / 5)], [- (2 / 5), 1]]] ! k) 0)) [0..<Suc 0]
             = ([[- (2 / 5)]] :: mat)"
    by (simp add: eval_arrays)
  have l: "for_loop (coordinate (1 / 10) (Suc 0) [1] [[[1, - (2 / 5)], [- (2 / 5), 1]]] [[[1000000]]]
                       [[- (2 / 5)]] 0) [0..<2 - 1] ([[0]], 0) = Inr ([[3 / 23500000]], 0)"
    by (simp add: upt_0_1 far_coordinate)
  show ?thesis
    unfolding step_p_def Let_def sweep_state.simps m y u
    by (simp only: l prod.case sum.case)
      (simp add: write_back_def new_diagonal_def eval_arrays)
qed

lemma ill_root: "trust_region_g (1 / 4) [1 / 2] [10000000] (1 / 10000000) = 0"
  by (simp add: trust_region_g_def power2_eq_square)


text \<open>
  C1 (as amended). For the excluded row \<open>p\<close> and the coordinate \<open>m\<close>, with \<open>c(k)\<close> and
  \<open>q(k)\<close> as in the specification: when the Euclidean norm of \<open>c\<close> is at most \<open>rho\<close>,
  zero is written into \<open>y[:, m]\<close>; otherwise \<open>alpha * c(k) / (1 + alpha * q(k))\<close> is
  written, where \<open>alpha\<close> is what the Newton-Raphson iteration on \<open>g\<close> returns: with
  \<open>a(0) = 0\<close> and \<open>a(i+1) = a(i) - g(a(i)) / g'(a(i))\<close>, it is the first iterate \<open>a(j)\<close>,
  \<open>j \<le> 50\<close>, that lies within \<^verbatim>\<open>1.5e-6\<close> of its predecessor \<open>a(j-1)\<close> (or at which the
  derivative vanishes); the iteration gives up only after 50 steps none of which was
  shorter than \<^verbatim>\<open>1.5e-6\<close>. The tolerance bounds the last step, not the distance to the
  root: \<open>alpha\<close> need not be a root of \<open>g\<close>, nor within \<^verbatim>\<open>1.5e-6\<close> of one. When
  \<open>rho \<ge> 0\<close> and every \<open>q(k)\<close> is positive, the iteration approaches the root from
  below: \<open>alpha \<ge> 0\<close>, \<open>g(alpha) \<le> 0\<close>, \<open>alpha\<close> is at most every non-negative root of
  \<open>g\<close>, and it was reached by a step shorter than the tolerance.
\<close>

theorem coordinate_solution:
  fixes n_samples :: vec and emp_covs Winv :: stack and y u :: mat and p m n_tasks :: nat
    and rho :: real
  assumes "length y = n_tasks"
  defines "c \<equiv> map (coord_c n_samples emp_covs Winv y u p m) [0..<n_tasks]"
  defines "q \<equiv> map (coord_q n_samples emp_covs Winv p m) [0..<n_tasks]"
  defines "g \<equiv> \<lambda>a. quad_trust_region a q (map2 (\<lambda>a b. 2 * a * b) (map2 (*) c c) q)
                      (map2 (*) c c) (rho\<^sup>2)"
  defines "g' \<equiv> \<lambda>a. quad_trust_region_deriv a q (map2 (\<lambda>a b. 2 * a * b) (map2 (*) c c) q)
                      (map2 (*) c c) (rho\<^sup>2)"
  defines "a \<equiv> \<lambda>i. newton_iterate g g' i 0"
  shows "(norm2 c \<le> rho \<longrightarrow>
            (\<exists>y'. coordinate rho n_tasks n_samples emp_covs Winv u p m (y, w) = Inr (y', w)
                \<and> length y' = n_tasks \<and> (\<forall>k<n_tasks. y' ! k = (y ! k)[m := 0])))
       \<and> (\<not> norm2 c \<le> rho \<longrightarrow>
            root_find rho c q = newton g 0 g' 50 (15 / 10 ^ 7)
          \<and> (root_find rho c q = Inl RuntimeError \<longrightarrow>
                (\<forall>i<50. \<not> \<bar>a (Suc i) - a i\<bar> < 15 / 10 ^ 7))
          \<and> (\<forall>y' w'. coordinate rho n_tasks n_samples emp_covs Winv u p m (y, w) = Inr (y', w')
               \<longrightarrow> (\<exists>alpha j. root_find rho c q = Inr alpha
                      \<and> length y' = n_tasks
                      \<and> (\<forall>k<n_tasks. y' ! k = (y ! k)[m := alpha * c ! k / (1 + alpha * q ! k)])
                      \<and> j \<le> 50 \<and> alpha = a j
                      \<and> (\<forall>i. Suc i < j \<longrightarrow> \<not> \<bar>a (Suc i) - a i\<bar> < 15 / 10 ^ 7)
                      \<and> ((g' alpha = Some 0 \<and> j < 50)
                         \<or> (1 \<le> j \<and> \<bar>alpha - a (j - 1)\<bar> < 15 / 10 ^ 7))
                      \<and> (0 \<le> rho \<and> (\<forall>k<n_tasks. 0 < q ! k)
                           \<longrightarrow> 0 \<le> alpha \<and> trust_region_g rho c q alpha \<le> 0
                             \<and> 1 \<le> j \<and> \<bar>alpha - a (j - 1)\<bar> < 15 / 10 ^ 7
                             \<and> (\<forall>r. 0 \<le> r \<and> trust_region_g rho c q r = 0
                                    \<longrightarrow> alpha \<le> r)))))"
proof (intro conjI impI allI)
  assume small: "norm2 c \<le> rho"
  let ?y' = "set_col m (map (\<lambda>k. 0) [0..<n_tasks]) y"
  have "coordinate rho n_tasks n_samples emp_covs Winv u p m (y, w) = Inr (?y', w)"
    using small unfolding coordinate_unfold Let_def c_def by simp
  moreover have "length ?y' = n_tasks" using assms(1) by (simp add: set_col_def)
  moreover have "\<forall>k<n_tasks. ?y' ! k = (y ! k)[m := 0]"
    using set_col_row[OF assms(1), of "map (\<lambda>k. 0) [0..<n_tasks]"] by simp
  ultimately show "\<exists>y'. coordinate rho n_tasks n_samples emp_covs Winv u p m (y, w) = Inr (y', w)
                \<and> length y' = n_tasks \<and> (\<forall>k<n_tasks. y' ! k = (y ! k)[m := 0])"
    by blast
next
  show "root_find rho c q = newton g 0 g' 50 (15 / 10 ^ 7)"
    by (simp add: root_find_def Let_def g_def g'_def)
next
  fix i :: nat
  assume "root_find rho c q = Inl RuntimeError" and "i < 50"
  then show "\<not> \<bar>a (Suc i) - a i\<bar> < 15 / 10 ^ 7"
    unfolding a_def g_def g'_def using root_find_exhausted by blast
next
  fix y' w'
  assume big: "\<not> norm2 c \<le> rho"
    and res: "coordinate rho n_tasks n_samples emp_covs Winv u p m (y, w) = Inr (y', w')"
  let ?x = "\<lambda>alpha. map2 (\<lambda>ck qk. (alpha * ck) / (1 + alpha * qk)) c q"
  from res big obtain alpha where al: "root_find rho c q = Inr alpha"
    and y': "y' = set_col m (?x alpha) y"
    unfolding coordinate_unfold Let_def c_def[symmetric] q_def[symmetric]
    by (auto split: sum.splits option.splits)
  have lc: "length c = n_tasks" and lq: "length q = n_tasks" by (simp_all add: c_def q_def)
  have lx: "length (?x alpha) = n_tasks" using lc lq by simp
  have l: "length y' = n_tasks" unfolding y' using assms(1) lx by (simp add: set_col_def)
  have rows: "\<forall>k<n_tasks. y' ! k = (y ! k)[m := alpha * c ! k / (1 + alpha * q ! k)]"
  proof (intro allI impI)
    fix k assume k: "k < n_tasks"
    have "?x alpha ! k = alpha * c ! k / (1 + alpha * q ! k)" using k lc lq by simp
    then show "y' ! k = (y ! k)[m := alpha * c ! k / (1 + alpha * q ! k)]"
      unfolding y' using set_col_row[OF assms(1) lx k] by simp
  qed
  from root_find_first[OF al] obtain j where j: "j \<le> 50" "alpha = a j"
    and first: "\<forall>i. Suc i < j \<longrightarrow> \<not> \<bar>a (Suc i) - a i\<bar> < 15 / 10 ^ 7"
    and ex: "(g' alpha = Some 0 \<and> j < 50) \<or> (1 \<le> j \<and> \<bar>alpha - a (j - 1)\<bar> < 15 / 10 ^ 7)"
    unfolding a_def g_def g'_def by blast
  have good: "0 \<le> alpha \<and> trust_region_g rho c q alpha \<le> 0
                \<and> 1 \<le> j \<and> \<bar>alpha - a (j - 1)\<bar> < 15 / 10 ^ 7
                \<and> (\<forall>r. 0 \<le> r \<and> trust_region_g rho c q r = 0 \<longrightarrow> alpha \<le> r)"
    if h: "0 \<le> rho \<and> (\<forall>k<n_tasks. 0 < q ! k)"
  proof -
    from h have rho: "0 \<le> rho" and qpos: "\<forall>k<n_tasks. 0 < q ! k" by simp_all
    have below: "0 \<le> alpha \<and> trust_region_g rho c q alpha \<le> 0"
      by (rule root_find_below[OF lc lq qpos rho big al])
    have nz: "\<exists>k<n_tasks. c ! k \<noteq> 0" using norm2_exceeds[OF rho big] lc by simp
    have "g' alpha \<noteq> Some 0"
      unfolding g'_def using below by (intro trust_region_deriv_pos[OF lc lq qpos nz]) simp
    with ex have tolx: "1 \<le> j \<and> \<bar>alpha - a (j - 1)\<bar> < 15 / 10 ^ 7" by blast
    have "\<forall>r. 0 \<le> r \<and> trust_region_g rho c q r = 0 \<longrightarrow> alpha \<le> r"
      using root_find_not_above[OF lc lq qpos rho big al] by blast
    with below tolx show ?thesis by blast
  qed
  show "\<exists>alpha j. root_find rho c q = Inr alpha
                      \<and> length y' = n_tasks
                      \<and> (\<forall>k<n_tasks. y' ! k = (y ! k)[m := alpha * c ! k / (1 + alpha * q ! k)])
                      \<and> j \<le> 50 \<and> alpha = a j
                      \<and> (\<forall>i. Suc i < j \<longrightarrow> \<not> \<bar>a (Suc i) - a i\<bar> < 15 / 10 ^ 7)
                      \<and> ((g' alpha = Some 0 \<and> j < 50)
                         \<or> (1 \<le> j \<and> \<bar>alpha - a (j - 1)\<bar> < 15 / 10 ^ 7))
                      \<and> (0 \<le> rho \<and> (\<forall>k<n_tasks. 0 < q ! k)
                           \<longrightarrow> 0 \<le> alpha \<and> trust_region_g rho c q alpha \<le> 0
                             \<and> 1 \<le> j \<and> \<bar>alpha - a (j - 1)\<bar> < 15 / 10 ^ 7
                             \<and> (\<forall>r. 0 \<le> r \<and> trust_region_g rho c q r = 0
                                    \<longrightarrow> alpha \<le> r))"
    apply (rule exI[of _ alpha], rule exI[of _ j])
    using al l rows j first ex good by blast
qed

theorem coordinate_solution_witness:
  "\<exists>alpha (j :: nat). root_find (1 / 4) [1 / 2] [10000000] = Inr alpha
       \<and> [[3 / 220000000]] ! 0 = [0][0 := alpha * [1 / 2] ! 0 / (1 + alpha * [10000000] ! 0)]
       \<and> 1 \<le> j \<and> j \<le> 50
       \<and> 0 \<le> alpha \<and> trust_region_g (1 / 4) [1 / 2] [10000000] alpha \<le> 0
       \<and> alpha \<le> 1 / 10000000"
proof -
  have l: "length ([[0]] :: mat) = 1" by simp
  note T = coordinate_solution [OF l, where n_samples = "[1]"
      and emp_covs = "[[[1, - 1 / 2], [- 1 / 2, 1]]]" and Winv = "[[[10000000]]]"
      and u = "[[- 1 / 2]]" and p = 0 and m = 0 and rho = "1 / 4" and w = 0,
      unfolded ill_c ill_q ill_norm]
  have big: "\<not> (1 / 2 :: real) \<le> 1 / 4" by simp
  note R = T[THEN conjunct2, rule_format, OF big, THEN conjunct2, THEN conjunct2, rule_format,
      OF ill_coordinate]
  from R obtain alpha j where
    a: "root_find (1 / 4) [1 / 2] [10000000] = Inr alpha"
    and rows: "\<forall>k<1. [[3 / 220000000]] ! k
                 = ([[0]] ! k)[0 := alpha * [1 / 2] ! k / (1 + alpha * [10000000] ! k)]"
    and j: "j \<le> 50"
    and good: "0 \<le> (1 / 4 :: real) \<and> (\<forall>k<1. 0 < [10000000 :: real] ! k)
       \<longrightarrow> 0 \<le> alpha \<and> trust_region_g (1 / 4) [1 / 2] [10000000] alpha \<le> 0
         \<and> 1 \<le> j
         \<and> \<bar>alpha - newton_iterate
               (\<lambda>a. quad_trust_region a [10000000]
                      (map2 (\<lambda>a b. 2 * a * b) (map2 (*) [1 / 2] [1 / 2]) [10000000])
                      (map2 (*) [1 / 2] [1 / 2]) ((1 / 4)\<^sup>2))
               (\<lambda>a. quad_trust_region_deriv a [10000000]
                      (map2 (\<lambda>a b. 2 * a * b) (map2 (*) [1 / 2] [1 / 2]) [10000000])
                      (map2 (*) [1 / 2] [1 / 2]) ((1 / 4)\<^sup>2)) (j - 1) 0\<bar> < 15 / 10 ^ 7
         \<and> (\<forall>r. 0 \<le> r \<and> trust_region_g (1 / 4) [1 / 2] [10000000] r = 0 \<longrightarrow> alpha \<le> r)"
    by blast
  from good have g1: "0 \<le> alpha" and g2: "trust_region_g (1 / 4) [1 / 2] [10000000] alpha \<le> 0"
    and g3: "1 \<le> j"
    and g4: "\<forall>r. 0 \<le> r \<and> trust_region_g (1 / 4) [1 / 2] [10000000] r = 0 \<longrightarrow> alpha \<le> r"
    by simp_all
  have g5: "alpha \<le> 1 / 10000000"
    by (rule g4[rule_format, of "1 / 10000000"]) (simp add: ill_root)
  from rows have r0: "[[3 / 220000000]] ! 0
        = [0][0 := alpha * [1 / 2] ! 0 / (1 + alpha * [10000000] ! 0)]" by simp
  from a r0 g3 j g1 g2 g5 show ?thesis by blast
qed

text \<open>C1, the claim as stated fails: one task, two variables, \<open>rho = 1/10\<close>,
  \<open>emp_cov = [[1, -2/5], [-2/5, 1]]\<close> and the precision matrix \<open>diag(1, 10\<^sup>-\<^sup>6)\<close>, whose
  submatrix inverse is \<open>Winv = [[10\<^sup>6]]\<close>. For \<open>p = 0\<close>, \<open>m = 0\<close> this gives \<open>c = 2/5 > rho\<close>
  and \<open>q = 10\<^sup>6\<close>. The first Newton step from 0 is \<open>4.6875e-7\<close>, shorter than the
  tolerance, so the iteration returns \<open>alpha = 3/6400000\<close> after one step. The root of
  \<open>g\<close> is \<open>3e-6\<close>: \<open>alpha\<close> is farther from it than the tolerance \<^verbatim>\<open>1.5e-6\<close>, and
  \<open>g(alpha) = -567/8836\<close> is not zero (no warning is emitted, since its absolute value is
  below 0.1). The value written is \<open>alpha * c / (1 + alpha * q) = 3/23500000\<close>.\<close>

theorem coordinate_solution_counterexample:
  "coordinate (1 / 10) (Suc 0) [1] [[[1, - (2 / 5)], [- (2 / 5), 1]]] [[[1000000]]]
     [[- (2 / 5)]] 0 0 ([[0]], 0) = Inr ([[3 / 23500000]], 0)
   \<and> root_find (1 / 10) [2 / 5] [1000000] = Inr (3 / 6400000)
   \<and> ([[3 / 23500000]] :: mat)
       = [[(3 / 6400000) * (2 / 5) / (1 + (3 / 6400000) * 1000000)]]
   \<and> trust_region_g (1 / 10) [2 / 5] [1000000] (3 / 6400000) = - 567 / 8836
   \<and> trust_region_g (1 / 10) [2 / 5] [1000000] (3 / 1000000) = 0
   \<and> (15 / 10 ^ 7 :: real) < 3 / 1000000 - 3 / 6400000"
  using far_coordinate far_root_find far_residual far_root by simp


section \<open>The invariant of the precision stack\<close>

lemma for_loop_upt_invariant:
  assumes "\<And>i s s'. a \<le> i \<Longrightarrow> i < b \<Longrightarrow> I i s \<Longrightarrow> body i s = Inr s' \<Longrightarrow> I (Suc i) s'"
    and "I a s" and "for_loop body [a..<b] s = Inr s'" and "a \<le> b"
  shows "I b s'"
  using assms
proof (induction "b - a" arbitrary: a s)
  case 0
  then show ?case by simp
next
  case (Suc n)
  then have ab: "a < b" by simp
  then have u: "[a..<b] = a # [Suc a..<b]" by (simp add: upt_rec)
  note step = Suc.prems(1)
  from Suc.prems(3) obtain s1 where s1: "body a s = Inr s1"
    and rest: "for_loop body [Suc a..<b] s1 = Inr s'"
    unfolding u by (auto split: sum.splits)
  have I1: "I (Suc a) s1" by (rule step[OF le_refl ab Suc.prems(2) s1])
  have n: "n = b - Suc a" using Suc.hyps(2) by simp
  have le: "Suc a \<le> b" using ab by simp
  have step': "\<And>i s s'. Suc a \<le> i \<Longrightarrow> i < b \<Longrightarrow> I i s \<Longrightarrow> body i s = Inr s' \<Longrightarrow> I (Suc i) s'"
    using step by simp
  show ?case by (rule Suc.hyps(1)[OF n step' I1 rest le])
qed

lemma set_col_shape:
  assumes "length y = nt" and "length v = nt"
  shows "length (set_col m v y) = nt
       \<and> (\<forall>k<nt. length (set_col m v y ! k) = length (y ! k))"
  using assms by (simp add: set_col_def)

lemma coordinate_shape:
  assumes "coordinate rho nt ns emp Winv u p m (y, w) = Inr (y', w')"
    and "length y = nt"
  shows "length y' = nt \<and> (\<forall>k<nt. length (y' ! k) = length (y ! k))"
proof -
  let ?c = "map (\<lambda>k. - (ns ! k) * (emp ! k ! p ! p
              * dot (map (\<lambda>k. del m (col (Winv ! k) m)) [0..<nt] ! k)
                  (map (\<lambda>k. del m (y ! k)) [0..<nt] ! k) + u ! k ! m)) [0..<nt]"
  let ?q = "map (\<lambda>k. ns ! k * emp ! k ! p ! p * (Winv ! k ! m ! m)) [0..<nt]"
  from assms(1) consider
      (zero) "y' = set_col m (map (\<lambda>k. 0) [0..<nt]) y"
    | (newton) alpha where "y' = set_col m (map2 (\<lambda>ck qk. (alpha * ck) / (1 + alpha * qk)) ?c ?q) y"
    unfolding coordinate_def Let_def
    by (auto split: if_splits sum.splits option.splits)
  then show ?thesis
  proof cases
    case zero
    show ?thesis unfolding zero by (rule set_col_shape[OF assms(2)]) simp
  next
    case newton
    show ?thesis unfolding newton by (rule set_col_shape[OF assms(2)]) simp
  qed
qed

lemma coordinate_loop_shape:
  assumes "for_loop (coordinate rho nt ns emp Winv u p) ms (y, w) = Inr (y', w')"
    and "length y = nt"
  shows "length y' = nt \<and> (\<forall>k<nt. length (y' ! k) = length (y ! k))"
  using assms
proof (induction ms arbitrary: y w)
  case Nil
  then show ?case by simp
next
  case (Cons m ms)
  from Cons.prems(1) obtain y1 w1 where
    c: "coordinate rho nt ns emp Winv u p m (y, w) = Inr (y1, w1)"
    and r: "for_loop (coordinate rho nt ns emp Winv u p) ms (y1, w1) = Inr (y', w')"
    by (auto split: sum.splits)
  from coordinate_shape[OF c Cons.prems(2)] Cons.IH[OF r] show ?case by simp
qed

lemma is_stack_nth: "is_stack n nt S \<Longrightarrow> k < nt \<Longrightarrow> is_mat n n (S ! k)"
  by (simp add: is_stack_def)

lemma spd_stack_is_stack: "spd_stack n nt S \<Longrightarrow> is_stack n nt S"
  by (simp add: spd_stack_def is_stack_def spd_def symmetric_mat_def)

lemma spd_stack_nth: "spd_stack n nt S \<Longrightarrow> k < nt \<Longrightarrow> spd n (S ! k)"
  by (simp add: spd_stack_def)

lemma maintain_correct:
  assumes L: "inv_correct L" and p: "p < n" and O: "is_stack n nt om"
    and prev: "0 < p \<longrightarrow> length Wp = nt \<and> length Wi = nt
                 \<and> (\<forall>k<nt. Wp ! k = submatrix (p - 1) (om ! k)
                            \<and> is_inverse (n - 1) (Wp ! k) (Wi ! k))"
    and res: "maintain L nt p om (Wp, Wi) = Inr (W', Winv')"
  shows "length W' = nt \<and> length Winv' = nt
       \<and> (\<forall>k<nt. W' ! k = submatrix p (om ! k) \<and> is_inverse (n - 1) (W' ! k) (Winv' ! k))"
proof (cases "p = 0")
  case True
  let ?f = "\<lambda>M. case linalg_inv L M of None \<Rightarrow> Inl LinAlgError | Some Mi \<Rightarrow> Inr Mi"
  have lo: "length om = nt" using O by (simp add: is_stack_def)
  from res True have W': "W' = map (submatrix 0) om"
    and c: "collect (map ?f W') = Inr Winv'"
    by (auto simp: maintain_def Let_def split: sum.splits)
  have lW: "length W' = nt" using W' lo by simp
  have lWi: "length Winv' = nt" using collect_Inr_length[OF c] lW by simp
  have "W' ! k = submatrix p (om ! k) \<and> is_inverse (n - 1) (W' ! k) (Winv' ! k)"
    if k: "k < nt" for k
  proof -
    have wk: "W' ! k = submatrix 0 (om ! k)" using W' k lo by simp
    have m: "is_mat (n - 1) (n - 1) (W' ! k)"
      unfolding wk using is_mat_submatrix[OF is_stack_nth[OF O k]] p True by simp
    have "?f (W' ! k) = Inr (Winv' ! k)"
      using collect_Inr_nth[OF c, of k] k lW by simp
    then have "linalg_inv L (W' ! k) = Some (Winv' ! k)"
      by (simp split: option.splits)
    then have "is_inverse (length (W' ! k)) (W' ! k) (Winv' ! k)"
      using L unfolding inv_correct_def by blast
    then show ?thesis using wk m True by (simp add: is_mat_def)
  qed
  with lW lWi show ?thesis by blast
next
  case False
  let ?g = "\<lambda>k. update_submatrix (om ! k) (Wp ! k) (Wi ! k) p"
  from res False obtain r where c: "collect (map ?g [0..<nt]) = Inr r"
    and W': "W' = map fst r" and Wi': "Winv' = map snd r"
    by (auto simp: maintain_def split: sum.splits)
  have lr: "length r = nt" using collect_Inr_length[OF c] by simp
  have "W' ! k = submatrix p (om ! k) \<and> is_inverse (n - 1) (W' ! k) (Winv' ! k)"
    if k: "k < nt" for k
  proof -
    have "?g k = Inr (r ! k)" using collect_Inr_nth[OF c, of k] k by simp
    then have u: "update_submatrix (om ! k) (Wp ! k) (Wi ! k) p = Inr (W' ! k, Winv' ! k)"
      using k lr by (simp add: W' Wi')
    from prev False k have s: "Wp ! k = submatrix (p - 1) (om ! k)"
      and i: "is_inverse (n - 1) (Wp ! k) (Wi ! k)" by blast+
    have p1: "1 \<le> p" using False by simp
    show ?thesis
      by (rule update_submatrix_exact[OF is_stack_nth[OF O k] p1 p s i u])
  qed
  moreover have "length W' = nt" "length Winv' = nt" using lr by (simp_all add: W' Wi')
  ultimately show ?thesis by blast
qed

lemma step_p_invariant:
  assumes L: "inv_correct L" and p: "p < n"
    and E: "\<forall>k<nt. 0 < emp ! k ! p ! p"
    and S: "spd_stack n nt (cur_omega s)"
    and M: "0 < p \<longrightarrow> maintained n nt (p - 1) s"
    and res: "step_p L rho nt n ns emp p s = Inr s'"
  shows "spd_stack n nt (cur_omega s') \<and> maintained n nt p s'"
proof -
  let ?om = "cur_omega s"
  have O: "is_stack n nt ?om" by (rule spd_stack_is_stack[OF S])
  from res obtain W' Winv' where m: "maintain L nt p ?om (cur_W s, cur_Winv s) = Inr (W', Winv')"
    by (auto simp: step_p_def split: sum.splits)
  let ?y = "map (\<lambda>k. del p (col (?om ! k) p)) [0..<nt]"
  let ?u = "map (\<lambda>k. del p (col (emp ! k) p)) [0..<nt]"
  from res m obtain y' w' where
    loop: "for_loop (coordinate rho nt ns emp Winv' ?u p) [0..<n - 1] (?y, n_warned s) = Inr (y', w')"
    by (auto simp: step_p_def Let_def split: sum.splits)
  let ?new = "\<lambda>k. write_back p (y' ! k) (new_diagonal (emp ! k ! p ! p) (y' ! k) (Winv' ! k)) (?om ! k)"
  from res m loop have s': "s' = \<lparr>cur_omega = map ?new [0..<nt], cur_W = W', cur_Winv = Winv',
                                  n_warned = w'\<rparr>"
    by (auto simp: step_p_def Let_def split: if_splits)
  have prev: "0 < p \<longrightarrow> length (cur_W s) = nt \<and> length (cur_Winv s) = nt
                 \<and> (\<forall>k<nt. cur_W s ! k = submatrix (p - 1) (?om ! k)
                            \<and> is_inverse (n - 1) (cur_W s ! k) (cur_Winv s ! k))"
    using M unfolding maintained_def by blast
  note mc = maintain_correct[OF L p O prev m]
  have ly: "length ?y = nt" by simp
  have yk: "length (?y ! k) = n - 1" if "k < nt" for k
  proof -
    have "length (?om ! k) = n" using is_stack_nth[OF O that] by (simp add: is_mat_def)
    then show ?thesis using that p by (simp add: length_del')
  qed
  from coordinate_loop_shape[OF loop ly] yk
  have ly': "\<And>k. k < nt \<Longrightarrow> length (y' ! k) = n - 1" by simp
  have new_spd: "spd n (?new k)" if k: "k < nt" for k
  proof -
    have i: "is_inverse (n - 1) (submatrix p (?om ! k)) (Winv' ! k)"
      using mc k by auto
    show ?thesis
      by (rule write_back_spd[OF spd_stack_nth[OF S k] p i ly'[OF k]]) (simp add: E k)
  qed
  have a: "spd_stack n nt (cur_omega s')"
    unfolding s' spd_stack_def using new_spd by auto
  have b: "maintained n nt p s'"
  proof -
    have "W' ! k = submatrix p (map ?new [0..<nt] ! k)
          \<and> is_inverse (n - 1) (W' ! k) (Winv' ! k)" if k: "k < nt" for k
    proof -
      from mc k have w: "W' ! k = submatrix p (?om ! k)"
        and i: "is_inverse (n - 1) (W' ! k) (Winv' ! k)" by blast+
      show ?thesis
        using k i w submatrix_write_back[OF is_stack_nth[OF O k] ly'[OF k] p] by simp
    qed
    then have allk: "\<forall>k<nt. W' ! k = submatrix p (map ?new [0..<nt] ! k)
          \<and> is_inverse (n - 1) (W' ! k) (Winv' ! k)" by blast
    have l: "length W' = nt" "length Winv' = nt" using mc by blast+
    show ?thesis
      unfolding maintained_def s' by (simp only: sweep_state.simps) (intro conjI l allk)
  qed
  from a b show ?thesis by simp
qed

lemma sweep_spd:
  assumes L: "inv_correct L"
    and E: "\<forall>k<nt. \<forall>p<n. 0 < emp ! k ! p ! p"
    and S: "spd_stack n nt (cur_omega s)"
    and res: "sweep L rho nt n ns emp s = Inr s'"
  shows "spd_stack n nt (cur_omega s')"
proof -
  let ?I = "\<lambda>i s. spd_stack n nt (cur_omega s) \<and> (0 < i \<longrightarrow> maintained n nt (i - 1) s)"
  have "?I n s'"
  proof (rule for_loop_upt_invariant[where I = ?I and a = 0 and b = n
        and body = "step_p L rho nt n ns emp"])
    fix i t t' assume i: "i < n" and I: "?I i t" and st: "step_p L rho nt n ns emp i t = Inr t'"
    from E i have Ei: "\<forall>k<nt. 0 < emp ! k ! i ! i" by simp
    from I have a: "spd_stack n nt (cur_omega t)" and b: "0 < i \<longrightarrow> maintained n nt (i - 1) t"
      by blast+
    from step_p_invariant[OF L i Ei a b st] show "?I (Suc i) t'" by simp
  next
    show "?I 0 s" using S by simp
  next
    show "for_loop (step_p L rho nt n ns emp) [0..<n] s = Inr s'"
      using res by (simp add: sweep_def)
  qed simp
  then show ?thesis by blast
qed

lemma driver_loop_spd:
  assumes L: "inv_correct L"
    and E: "\<forall>k<nt. \<forall>p<n. 0 < emp ! k ! p ! p"
  shows "spd_stack n nt (cur_omega (sw d))
         \<Longrightarrow> driver_loop L rho tol rc nt n ns emp iters d = Inr d'
         \<Longrightarrow> spd_stack n nt (cur_omega (sw d'))"
proof (induction iters arbitrary: d)
  case 0
  then show ?case by simp
next
  case (Suc iters)
  from Suc.prems(2) obtain s1 where s1: "sweep L rho nt n ns emp (sw d) = Inr s1"
    by (auto split: sum.splits)
  have S1: "spd_stack n nt (cur_omega s1)" by (rule sweep_spd[OF L E Suc.prems(1) s1])
  let ?cost = "group_sparse_covariance_costs L nt n ns rho (cur_omega s1) emp"
  let ?og = "if rc \<or> tol \<noteq> None then map_sum id Some ?cost else Inr None"
  from Suc.prems(2) s1 obtain og where og: "?og = Inr og"
    by (auto split: sum.splits)
  let ?d1 = "\<lparr>sw = s1, cost_trace = (if rc then cost_trace d @ [the og] else cost_trace d),
              sweeps_done = Suc (sweeps_done d)\<rparr>"
  show ?case
  proof (cases "tol \<noteq> None \<and> snd (the og) < the tol")
    case True
    with Suc.prems(2) s1 og have "d' = ?d1" by (simp add: Let_def)
    then show ?thesis using S1 by simp
  next
    case False
    with Suc.prems(2) s1 og have "driver_loop L rho tol rc nt n ns emp iters ?d1 = Inr d'"
      by (auto simp: Let_def)
    from Suc.IH[OF _ this] S1 show ?thesis by simp
  qed
qed

lemma optimize_spd:
  assumes L: "inv_correct L"
    and E: "\<forall>k<nt. \<forall>p<n. 0 < emp ! k ! p ! p"
    and S: "spd_stack n nt om0"
    and res: "optimize L rho max_iter tol rc nt n ns emp om0 = Inr r"
  shows "spd_stack n nt (precisions r)"
proof (cases "finite_value rho")
  case None
  with res S show ?thesis by (auto simp: optimize_def split: if_splits)
next
  case (Some x)
  let ?d0 = "\<lparr>sw = \<lparr>cur_omega = om0, cur_W = [], cur_Winv = [], n_warned = 0\<rparr>,
              cost_trace = [], sweeps_done = 0\<rparr>"
  from res Some obtain d where d: "driver_loop L x tol rc nt n ns emp max_iter ?d0 = Inr d"
    and r: "precisions r = cur_omega (sw d)"
    by (auto simp: optimize_def split: if_splits sum.splits)
  have "spd_stack n nt (cur_omega (sw ?d0))" using S by simp
  from driver_loop_spd[OF L E this d] r show ?thesis by simp
qed

lemma diag_matrix_nth:
  "i < length d \<Longrightarrow> j < length d \<Longrightarrow> diag_matrix d ! i ! j = (if i = j then d ! i else 0)"
  by (simp add: diag_matrix_def)

lemma is_mat_diag_matrix: "is_mat (length d) (length d) (diag_matrix d)"
  by (simp add: is_mat_def diag_matrix_def)

lemma diag_matrix_spd:
  assumes "length d = n" and pos: "\<forall>i<n. 0 < d ! i"
  shows "spd n (diag_matrix d)"
proof -
  have M: "is_mat n n (diag_matrix d)" using is_mat_diag_matrix[of d] assms(1) by simp
  have sym: "symmetric_mat n (diag_matrix d)"
    unfolding symmetric_mat_def using M assms(1) by (auto simp: diag_matrix_nth)
  have "pos_def n (diag_matrix d)"
    unfolding pos_def_def
  proof (intro allI impI)
    fix x :: vec assume h: "length x = n \<and> (\<exists>i<n. x ! i \<noteq> 0)"
    then obtain i where i: "i < n" "x ! i \<noteq> 0" by blast
    have "quad_form (diag_matrix d) x = (\<Sum>a<n. \<Sum>b<n. x ! a * diag_matrix d ! a ! b * x ! b)"
      using quad_form_sum[OF M] h by simp
    also have "\<dots> = (\<Sum>a<n. \<Sum>b<n. if b = a then d ! a * (x ! a)\<^sup>2 else 0)"
      by (intro sum.cong refl) (auto simp: diag_matrix_nth assms(1) power2_eq_square)
    also have "\<dots> = (\<Sum>a<n. d ! a * (x ! a)\<^sup>2)"
      by (intro sum.cong refl) (simp add: sum.delta)
    finally have q: "quad_form (diag_matrix d) x = (\<Sum>a<n. d ! a * (x ! a)\<^sup>2)" .
    have "0 < (\<Sum>a<n. d ! a * (x ! a)\<^sup>2)"
    proof (rule sum_pos2[where i = i])
      show "0 < d ! i * (x ! i)\<^sup>2" using pos i by simp
      show "\<And>a. a \<in> {..<n} \<Longrightarrow> 0 \<le> d ! a * (x ! a)\<^sup>2"
        using pos by (simp add: less_imp_le)
    qed (use i in simp_all)
    then show "0 < quad_form (diag_matrix d) x" using q by simp
  qed
  with sym show ?thesis by (simp add: spd_def)
qed

lemma initial_precisions_spd:
  assumes E: "is_stack n nt emp" and P: "positive_diagonals n emp"
    and res: "initial_precisions emp None = Inr om0"
  shows "spd_stack n nt om0"
proof -
  let ?f = "\<lambda>E. if \<exists>x\<in>set (diagonal E). x = 0 then Inl NonFinite
                  else Inr (diag_matrix (map (\<lambda>x. 1 / x) (diagonal E)))"
  from res have c: "collect (map ?f emp) = Inr om0" by (simp add: initial_precisions_def)
  have le: "length emp = nt" using E by (simp add: is_stack_def)
  have lo: "length om0 = nt" using collect_Inr_length[OF c] le by simp
  have "spd n (om0 ! k)" if k: "k < nt" for k
  proof -
    have "?f (emp ! k) = Inr (om0 ! k)" using collect_Inr_nth[OF c, of k] k le by simp
    then have o: "om0 ! k = diag_matrix (map (\<lambda>x. 1 / x) (diagonal (emp ! k)))"
      by (simp split: if_splits)
    have l: "length (emp ! k) = n" using is_stack_nth[OF E k] by (simp add: is_mat_def)
    have "emp ! k \<in> set emp" using k le by simp
    then have pos: "\<forall>i<n. 0 < emp ! k ! i ! i" using P unfolding positive_diagonals_def by blast
    show ?thesis
      unfolding o by (rule diag_matrix_spd) (simp_all add: diagonal_def l pos)
  qed
  then show ?thesis unfolding spd_stack_def using lo by (auto simp: in_set_conv_nth)
qed

lemma gsc_spd:
  assumes L: "inv_correct L" and E: "is_stack n nt emp" and P: "positive_diagonals n emp"
    and ec: "empirical_covariances L tasks ac = Inr (emp, ns, nt, n)"
    and init: "\<forall>init. pinit = Some init \<longrightarrow> spd_stack n nt init"
    and res: "group_sparse_covariance L tasks rho max_iter tol ac rc pinit = Inr r"
  shows "spd_stack n nt (precisions r)"
proof -
  from res ec obtain om0 where i0: "initial_precisions emp pinit = Inr om0"
    and o: "optimize L rho max_iter tol rc nt n ns emp om0 = Inr r"
    by (auto simp: group_sparse_covariance_def split: if_splits sum.splits)
  have S0: "spd_stack n nt om0"
  proof (cases pinit)
    case None
    with i0 show ?thesis using initial_precisions_spd[OF E P] by simp
  next
    case (Some a)
    with i0 init show ?thesis by (simp add: initial_precisions_def)
  qed
  have le: "length emp = nt" using E by (simp add: is_stack_def)
  have pos: "\<forall>k<nt. \<forall>p<n. 0 < emp ! k ! p ! p"
  proof (intro allI impI)
    fix k p assume "k < nt" "p < n"
    moreover from this le have "emp ! k \<in> set emp" by simp
    ultimately show "0 < emp ! k ! p ! p" using P unfolding positive_diagonals_def by blast
  qed
  show ?thesis by (rule optimize_spd[OF L pos S0 o])
qed

lemma is_inverse_1x1: "a \<noteq> 0 \<Longrightarrow> is_inverse 1 [[a]] [[1 / a]]"
  by (simp add: is_inverse_def is_mat_def mat_mul_def identity_mat_def kron_def vecmat_def
      shape1_def col_def dot_def upt_0_1)

lemma small_lib_inv_correct: "inv_correct small_lib"
  unfolding inv_correct_def
proof (intro allI impI)
  fix A B assume "linalg_inv small_lib A = Some B"
  then have "small_inv A = Some B" by (simp add: small_lib_def)
  then show "is_inverse (length A) A B"
  proof (cases rule: small_inv.elims)
    case (1 a)
    then show ?thesis using is_inverse_1x1[of a] by (auto split: if_splits)
  next
    case (2 a b c d)
    then show ?thesis using is_inverse_2x2[of a d b c]
      by (auto split: if_splits simp: numeral_2_eq_2)
  qed auto
qed

lemma identity_spd: "spd 2 [[1, 0], [0, 1]]"
  using diag_matrix_spd[of "[1, 1]" 2] by (simp add: diag_matrix_2 less_Suc_eq numeral_2_eq_2)

lemma identity_run:
  "group_sparse_covariance small_lib [[[1, 1], [1, -1]]] (PyInt 1) 3 (Some 1) True False None
     = Inr \<lparr>covariances = [[[1, 0], [0, 1]]], precisions = [[[1, 0], [0, 1]]], costs = None,
            n_warnings = 0, n_sweeps = 1\<rparr>"
  by (simp add: group_sparse_covariance_def two_samples_covariance identity_initial optimize_def
      numeral_3_eq_3 identity_sweep identity_costs)

text \<open>
  C3. In exact arithmetic, for a dense inverse that returns inverses and empirical
  covariances of shape \<open>(n_var, n_var, n_tasks)\<close> with positive diagonals:
  \<^item> writing any vector \<open>y\<close> into row and column \<open>p\<close> of a symmetric positive definite
    matrix and setting the diagonal entry to \<open>1 / v + y\<^sup>T B y\<close>, where \<open>B\<close> is the inverse
    of the matrix without row and column \<open>p\<close> and \<open>v > 0\<close>, gives a symmetric positive
    definite matrix;
  \<^item> every per-\<open>p\<close> update step that returns keeps every \<open>Omega(k)\<close> symmetric positive
    definite, and leaves \<open>W\<close> and \<open>Winv\<close> the submatrix without row and column \<open>p\<close> and
    its inverse;
  \<^item> the precision matrices that \<open>group_sparse_covariance\<close> returns are symmetric
    positive definite (a warm start, when supplied, being a stack of symmetric positive
    definite matrices of that shape).
\<close>

theorem precision_stack_invariant:
  assumes "inv_correct L" and "is_stack n_var n_tasks emp_covs"
    and "positive_diagonals n_var emp_covs"
  shows "(\<forall>Om p B (y::vec) (v::real). spd n_var Om \<and> p < n_var \<and> is_inverse (n_var - 1) (submatrix p Om) B
            \<and> length y = n_var - 1 \<and> 0 < v
            \<longrightarrow> spd n_var (write_back p y (new_diagonal v y B) Om))
       \<and> (\<forall>rho p s s'. p < n_var \<and> spd_stack n_var n_tasks (cur_omega s)
            \<and> (0 < p \<longrightarrow> maintained n_var n_tasks (p - 1) s)
            \<and> step_p L rho n_tasks n_var n_samples emp_covs p s = Inr s'
            \<longrightarrow> spd_stack n_var n_tasks (cur_omega s') \<and> maintained n_var n_tasks p s')
       \<and> (\<forall>tasks rho max_iter tol ac rc pinit res.
              empirical_covariances L tasks ac = Inr (emp_covs, n_samples, n_tasks, n_var)
            \<and> (\<forall>init. pinit = Some init \<longrightarrow> spd_stack n_var n_tasks init)
            \<and> group_sparse_covariance L tasks rho max_iter tol ac rc pinit = Inr res
            \<longrightarrow> spd_stack n_var n_tasks (precisions res))"
proof (intro conjI allI impI)
  fix Om p B and y :: vec and v :: real
  assume "spd n_var Om \<and> p < n_var \<and> is_inverse (n_var - 1) (submatrix p Om) B
            \<and> length y = n_var - 1 \<and> 0 < v"
  then show "spd n_var (write_back p y (new_diagonal v y B) Om)"
    using write_back_spd by blast
next
  fix rho p s s'
  assume h: "p < n_var \<and> spd_stack n_var n_tasks (cur_omega s)
            \<and> (0 < p \<longrightarrow> maintained n_var n_tasks (p - 1) s)
            \<and> step_p L rho n_tasks n_var n_samples emp_covs p s = Inr s'"
  have le: "length emp_covs = n_tasks" using assms(2) by (simp add: is_stack_def)
  from h have p: "p < n_var" by blast
  have pos: "\<forall>k<n_tasks. 0 < emp_covs ! k ! p ! p"
  proof (intro allI impI)
    fix k assume "k < n_tasks"
    with le have "emp_covs ! k \<in> set emp_covs" by simp
    with p show "0 < emp_covs ! k ! p ! p" using assms(3) unfolding positive_diagonals_def by blast
  qed
  from h have a: "spd_stack n_var n_tasks (cur_omega s)"
    and b: "0 < p \<longrightarrow> maintained n_var n_tasks (p - 1) s"
    and c: "step_p L rho n_tasks n_var n_samples emp_covs p s = Inr s'" by blast+
  from step_p_invariant[OF assms(1) p pos a b c]
  show "spd_stack n_var n_tasks (cur_omega s')" and "maintained n_var n_tasks p s'"
    by blast+
next
  fix tasks rho max_iter tol ac rc pinit res
  assume h: "empirical_covariances L tasks ac = Inr (emp_covs, n_samples, n_tasks, n_var)
            \<and> (\<forall>init. pinit = Some init \<longrightarrow> spd_stack n_var n_tasks init)
            \<and> group_sparse_covariance L tasks rho max_iter tol ac rc pinit = Inr res"
  then have a: "empirical_covariances L tasks ac = Inr (emp_covs, n_samples, n_tasks, n_var)"
    and b: "\<forall>init. pinit = Some init \<longrightarrow> spd_stack n_var n_tasks init"
    and c: "group_sparse_covariance L tasks rho max_iter tol ac rc pinit = Inr res" by blast+
  show "spd_stack n_var n_tasks (precisions res)"
    by (rule gsc_spd[OF assms a b c])
qed

theorem precision_stack_invariant_witness:
  "spd 2 (write_back 0 [1] (new_diagonal 1 [1] [[1]]) [[1, 0], [0, 1]])
   \<and> (\<exists>res. group_sparse_covariance small_lib [[[1, 1], [1, -1]]] (PyInt 1) 3 (Some 1) True False
               None = Inr res
            \<and> spd_stack 2 1 (precisions res))"
proof -
  have E: "is_stack 2 1 [[[1, 0], [0, 1]]]" by (simp add: is_stack_def is_mat_def)
  have P: "positive_diagonals 2 [[[1, 0], [0, 1]]]"
    by (simp add: positive_diagonals_def less_Suc_eq numeral_2_eq_2)
  note T = precision_stack_invariant[OF small_lib_inv_correct E P, of "[1]"]
  have i: "is_inverse (2 - 1) (submatrix 0 [[1, 0], [0, 1]]) [[1]]"
    using is_inverse_1x1[of 1] by (simp add: submatrix_def del_def)
  have a: "spd 2 (write_back 0 [1] (new_diagonal 1 [1] [[1]]) [[1, 0], [0, 1]])"
    using T identity_spd i by simp
  have "spd_stack 2 1 (precisions \<lparr>covariances = [[[1, 0], [0, 1]]],
           precisions = [[[1, 0], [0, 1]]], costs = None, n_warnings = 0, n_sweeps = 1\<rparr>)"
    using T two_samples_covariance identity_run by (metis One_nat_def option.discI)
  with a identity_run show ?thesis by simp
qed

section \<open>The root-find without a root: \<open>rho = 0\<close>\<close>

text \<open>With \<open>rho = 0\<close> the function \<open>g\<close> is negative everywhere. For one task with
  \<open>c \<noteq> 0\<close> and \<open>0 < q \<le> 1\<close> every Newton-Raphson step from a point \<open>a \<ge> 0\<close> is
  \<open>(1 + a * q) / (2 * q) \<ge> 1/2\<close>, so no step is shorter than the tolerance and the
  budget runs out, whatever it is.\<close>

lemma newton_loop_no_root:
  fixes ck qk :: real
  assumes "ck \<noteq> 0" and "0 < qk" and "qk \<le> 1" and "0 \<le> p0"
  shows "newton_loop (\<lambda>a. quad_trust_region a [qk] [2 * (ck * ck) * qk] [ck * ck] 0)
           (\<lambda>a. quad_trust_region_deriv a [qk] [2 * (ck * ck) * qk] [ck * ck] 0)
           (15 / 10 ^ 7) n p0 = Inl RuntimeError"
  using assms(4)
proof (induction n arbitrary: p0)
  case 0
  then show ?case by simp
next
  case (Suc n)
  define t where "t = 1 + p0 * qk"
  have t: "1 \<le> t" using Suc.prems assms(2) by (simp add: t_def)
  then have tnz: "t \<noteq> 0" by simp
  have fd: "quad_trust_region_deriv p0 [qk] [2 * (ck * ck) * qk] [ck * ck] 0
              = Some (2 * (ck * ck) * qk / t ^ 3)"
    using tnz by (simp add: quad_trust_region_deriv_def t_def)
  have fv: "quad_trust_region p0 [qk] [2 * (ck * ck) * qk] [ck * ck] 0
              = Some (- (ck * ck / t\<^sup>2))"
    using tnz by (simp add: quad_trust_region_def t_def)
  have dnz: "2 * (ck * ck) * qk / t ^ 3 \<noteq> 0" using assms(1,2) tnz by simp
  have step: "- (ck * ck / t\<^sup>2) / (2 * (ck * ck) * qk / t ^ 3) = - (t / (2 * qk))"
    using assms(1,2) tnz by (simp add: power2_eq_square power3_eq_cube field_simps)
  let ?p = "p0 - - (t / (2 * qk))"
  have big: "1 / 2 \<le> t / (2 * qk)"
  proof -
    have "qk \<le> t" using t assms(3) by simp
    then show ?thesis using assms(2) by (simp add: field_simps)
  qed
  have "?p - p0 = t / (2 * qk)" by simp
  then have "\<bar>?p - p0\<bar> = t / (2 * qk)" using big by linarith
  moreover have "(15 :: real) / 10 ^ 7 < 1 / 2" by simp
  ultimately have far: "\<not> \<bar>?p - p0\<bar> < 15 / 10 ^ 7" using big by linarith
  have nonneg: "0 \<le> ?p" using big Suc.prems by linarith
  show ?case
    unfolding newton_loop.simps(2) fd fv option.case Let_def step
    using Suc.IH[OF nonneg] far dnz by (simp only: if_False)
qed

lemma rho_zero_root_find:
  "root_find 0 [- 1 / 2] [1 / 2] = Inl RuntimeError"
proof -
  have "newton_loop (\<lambda>a. quad_trust_region a [1 / 2] [2 * (- 1 / 2 * (- 1 / 2)) * (1 / 2)]
              [- 1 / 2 * (- 1 / 2)] 0)
           (\<lambda>a. quad_trust_region_deriv a [1 / 2] [2 * (- 1 / 2 * (- 1 / 2)) * (1 / 2)]
              [- 1 / 2 * (- 1 / 2)] 0)
           (15 / 10 ^ 7) 50 0 = Inl RuntimeError"
    by (rule newton_loop_no_root) simp_all
  then show ?thesis
    by (simp add: root_find_def newton_def Let_def del: newton_loop.simps)
qed

lemma rho_zero_covariance:
  "empirical_covariances small_lib [[[1, 0], [1, 1]]] True
     = Inr ([[[1, 1 / 2], [1 / 2, 1 / 2]]], [1], Suc 0, 2)"
  by (simp add: empirical_covariances_def small_lib_def gram_covariance_def shape1_def
      symmetrize_def mat_add_def transpose_arr_def col_def dot_def
      upt_rec[of 0] upt_rec[of 1] upt_rec[of 2])

lemma rho_zero_initial:
  "initial_precisions [[[1, 1 / 2], [1 / 2, 1 / 2]]] None = Inr [[[1, 0], [0, 2]]]"
  by (simp add: initial_precisions_def diagonal_2 diag_matrix_2)

lemma rho_zero_c:
  "map (coord_c [1] [[[1, 1 / 2], [1 / 2, 1 / 2]]] [[[1 / 2]]] [[0]] [[1 / 2]] 0 0) [0..<Suc 0]
     = [- 1 / 2]"
  by (simp add: coord_c_def del_def col_def dot_def)

lemma rho_zero_q:
  "map (coord_q [1] [[[1, 1 / 2], [1 / 2, 1 / 2]]] [[[1 / 2]]] 0 0) [0..<Suc 0] = [1 / 2]"
  by (simp add: coord_q_def)

lemma rho_zero_norm: "norm2 [- 1 / 2] = 1 / 2"
  by (simp add: norm2_def power2_eq_square sqrt_quarter)

lemma rho_zero_coordinate:
  "coordinate 0 (Suc 0) [1] [[[1, 1 / 2], [1 / 2, 1 / 2]]] [[[1 / 2]]] [[1 / 2]] 0 0 ([[0]], 0)
     = Inl RuntimeError"
  unfolding coordinate_unfold Let_def rho_zero_c rho_zero_q rho_zero_norm rho_zero_root_find
  by simp

lemma rho_zero_step:
  "step_p small_lib 0 (Suc 0) 2 [1] [[[1, 1 / 2], [1 / 2, 1 / 2]]] 0
      \<lparr>cur_omega = [[[1, 0], [0, 2]]], cur_W = [], cur_Winv = [], n_warned = 0\<rparr>
   = Inl RuntimeError"
proof -
  have m: "maintain small_lib (Suc 0) 0 [[[1, 0], [0, 2]]] ([], []) = Inr ([[[2]]], [[[1 / 2]]])"
    by (simp add: maintain_def small_lib_def eval_arrays Let_def)
  have y: "map (\<lambda>k. del 0 (col ([[[1, 0], [0, 2]]] ! k) 0)) [0..<Suc 0] = ([[0]] :: mat)"
    by (simp add: eval_arrays)
  have u: "map (\<lambda>k. del 0 (col ([[[1, 1 / 2], [1 / 2, 1 / 2]]] ! k) 0)) [0..<Suc 0]
             = ([[1 / 2]] :: mat)"
    by (simp add: eval_arrays)
  have l: "for_loop (coordinate 0 (Suc 0) [1] [[[1, 1 / 2], [1 / 2, 1 / 2]]] [[[1 / 2]]]
                       [[1 / 2]] 0) [0..<2 - 1] ([[0]], 0) = Inl RuntimeError"
    by (simp add: upt_0_1 rho_zero_coordinate)
  show ?thesis
    unfolding step_p_def Let_def sweep_state.simps m y u
    by (simp only: l prod.case sum.case)
qed

lemma rho_zero_call:
  "group_sparse_covariance small_lib [[[1, 0], [1, 1]]] (PyInt 0) 1 None True False None
     = Inl RuntimeError"
  by (simp add: group_sparse_covariance_def rho_zero_covariance rho_zero_initial optimize_def
      sweep_def upt_0_2 rho_zero_step)


section \<open>The Newton-Raphson budget and the warning\<close>

lemma newton_loop_iterate:
  assumes "newton_loop func fprime tol n p0 = Inr a"
  shows "\<exists>j\<le>n. a = newton_iterate func fprime j p0
           \<and> ((fprime a = Some 0 \<and> j < n)
              \<or> (1 \<le> j \<and> \<bar>a - newton_iterate func fprime (j - 1) p0\<bar> < tol))"
  using assms
proof (induction n arbitrary: p0)
  case 0
  then show ?case by simp
next
  case (Suc n)
  from Suc.prems obtain fder where fd: "fprime p0 = Some fder"
    by (auto split: option.splits)
  show ?case
  proof (cases "fder = 0")
    case True
    with Suc.prems fd have "a = p0" by simp
    with True fd show ?thesis by (intro exI[of _ 0]) simp
  next
    case False
    with Suc.prems fd obtain fval where fv: "func p0 = Some fval"
      by (auto split: option.splits)
    let ?p = "p0 - fval / fder"
    have it1: "newton_iterate func fprime (Suc j) p0 = newton_iterate func fprime j ?p" for j
      by (simp add: fd fv)
    show ?thesis
    proof (cases "\<bar>?p - p0\<bar> < tol")
      case True
      with Suc.prems fd fv False have "a = ?p" by (simp add: Let_def)
      with True show ?thesis by (intro exI[of _ 1]) (simp add: fd fv)
    next
      case nt: False
      with Suc.prems fd fv False
      have "newton_loop func fprime tol n ?p = Inr a" by (simp add: Let_def)
      from Suc.IH[OF this] obtain j where j: "j \<le> n" "a = newton_iterate func fprime j ?p"
        "(fprime a = Some 0 \<and> j < n)
           \<or> (1 \<le> j \<and> \<bar>a - newton_iterate func fprime (j - 1) ?p\<bar> < tol)"
        by blast
      have prev: "newton_iterate func fprime (j - 1) ?p = newton_iterate func fprime (Suc j - 1) p0"
        if "1 \<le> j"
      proof -
        from that obtain i where "j = Suc i" by (cases j) auto
        then show ?thesis using it1[of i] by simp
      qed
      show ?thesis
        apply (rule exI[of _ "Suc j"])
        using j prev it1[of j] by auto
    qed
  qed
qed

lemma coordinate_other_column:
  assumes "coordinate rho nt ns emp Winv u p m' (y, w) = Inr (y', w')"
    and "length y = nt" and "m \<noteq> m'" and "k < nt"
  shows "y' ! k ! m = y ! k ! m"
proof -
  have "\<exists>v. length v = nt \<and> y' = set_col m' v y"
    using assms(1) unfolding coordinate_unfold Let_def
    apply (auto split: if_splits sum.splits option.splits)
      apply (rule exI, rule conjI[rotated], rule refl, simp)+
    done
  then obtain v where v: "length v = nt" "y' = set_col m' v y" by blast
  show ?thesis
    unfolding v(2) using set_col_row[OF assms(2) v(1) assms(4)] assms(3) by simp
qed

lemma coordinate_warnings_mono:
  assumes "coordinate rho nt ns emp Winv u p m (y, w) = Inr (y', w')"
  shows "w \<le> w'"
  using assms unfolding coordinate_unfold Let_def
  by (auto split: if_splits sum.splits option.splits)

lemma for_loop_append:
  "for_loop body (xs @ ys) s
     = (case for_loop body xs s of Inl e \<Rightarrow> Inl e | Inr s1 \<Rightarrow> for_loop body ys s1)"
  by (induction xs arbitrary: s) (auto split: sum.splits)

lemma coordinate_loop_keep:
  assumes "for_loop (coordinate rho nt ns emp Winv u p) ms (y, w) = Inr (yz, wz)"
    and "length y = nt" and "m \<notin> set ms"
  shows "(\<forall>k<nt. yz ! k ! m = y ! k ! m) \<and> w \<le> wz"
  using assms
proof (induction ms arbitrary: y w)
  case Nil
  then show ?case by simp
next
  case (Cons b ms)
  from Cons.prems(1) obtain y2 w2 where
    c2: "coordinate rho nt ns emp Winv u p b (y, w) = Inr (y2, w2)"
    and r2: "for_loop (coordinate rho nt ns emp Winv u p) ms (y2, w2) = Inr (yz, wz)"
    by (auto split: sum.splits)
  have l2: "length y2 = nt" using coordinate_shape[OF c2 Cons.prems(2)] by simp
  have ne: "m \<noteq> b" and nin: "m \<notin> set ms" using Cons.prems(3) by auto
  from Cons.IH[OF r2 l2 nin]
    coordinate_other_column[OF c2 Cons.prems(2) ne]
    coordinate_warnings_mono[OF c2]
  show ?case by simp
qed

lemma coordinate_loop_warnings_mono:
  assumes "for_loop (coordinate rho nt ns emp Winv u p) ms (y, w) = Inr (yz, wz)"
  shows "w \<le> wz"
  using assms
proof (induction ms arbitrary: y w)
  case Nil
  then show ?case by simp
next
  case (Cons b ms)
  from Cons.prems obtain y2 w2 where
    c2: "coordinate rho nt ns emp Winv u p b (y, w) = Inr (y2, w2)"
    and r2: "for_loop (coordinate rho nt ns emp Winv u p) ms (y2, w2) = Inr (yz, wz)"
    by (auto split: sum.splits)
  from Cons.IH[OF r2] coordinate_warnings_mono[OF c2] show ?case by simp
qed

lemma coordinate_loop_at:
  assumes loop: "for_loop (coordinate rho nt ns emp Winv u p) [0..<M] (y, w) = Inr (yz, wz)"
    and l: "length y = nt" and m: "m < M"
  shows "\<exists>ym wm ym' wm'.
           for_loop (coordinate rho nt ns emp Winv u p) [0..<m] (y, w) = Inr (ym, wm)
         \<and> coordinate rho nt ns emp Winv u p m (ym, wm) = Inr (ym', wm')
         \<and> length ym = nt \<and> (\<forall>k<nt. length (ym ! k) = length (y ! k))
         \<and> w \<le> wm \<and> wm' \<le> wz \<and> (\<forall>k<nt. yz ! k ! m = ym' ! k ! m)"
proof -
  have "[0..<m + (M - m)] = [0..<m] @ [m..<m + (M - m)]"
    by (rule upt_add_eq_append) simp
  moreover have "[m..<M] = m # [Suc m..<M]" using m by (rule upt_conv_Cons)
  ultimately have split: "[0..<M] = [0..<m] @ m # [Suc m..<M]" using m by simp
  from loop obtain ym wm where
    pre: "for_loop (coordinate rho nt ns emp Winv u p) [0..<m] (y, w) = Inr (ym, wm)"
    and rest: "for_loop (coordinate rho nt ns emp Winv u p) (m # [Suc m..<M]) (ym, wm)
                 = Inr (yz, wz)"
    unfolding split for_loop_append by (auto split: sum.splits)
  from rest obtain ym' wm' where
    c: "coordinate rho nt ns emp Winv u p m (ym, wm) = Inr (ym', wm')"
    and post: "for_loop (coordinate rho nt ns emp Winv u p) [Suc m..<M] (ym', wm') = Inr (yz, wz)"
    by (auto split: sum.splits)
  from coordinate_loop_shape[OF pre l]
  have lm: "length ym = nt" and rows: "\<forall>k<nt. length (ym ! k) = length (y ! k)" by simp_all
  have lm': "length ym' = nt" using coordinate_shape[OF c lm] by simp
  have "m \<notin> set [Suc m..<M]" by simp
  from coordinate_loop_keep[OF post lm' this]
  have keep: "\<forall>k<nt. yz ! k ! m = ym' ! k ! m" and w2: "wm' \<le> wz" by simp_all
  have w1: "w \<le> wm" by (rule coordinate_loop_warnings_mono[OF pre])
  from pre c lm rows w1 w2 keep show ?thesis by blast
qed

lemma write_back_row_col:
  assumes "is_mat n n A" and "length y = n - 1" and "p < n" and "a < n - 1"
  shows "write_back p y d A ! p ! skip p a = y ! a"
    and "write_back p y d A ! skip p a ! p = y ! a"
proof -
  have s: "skip p a < n" by (rule skip_less[OF assms(4)])
  have i: "ins p d y ! skip p a = y ! a"
    by (rule ins_nth_skip) (use assms in simp_all)
  show "write_back p y d A ! p ! skip p a = y ! a"
    using write_back_nth[OF assms(1,2,3) assms(3) s, of d] i by simp
  show "write_back p y d A ! skip p a ! p = y ! a"
    using write_back_nth[OF assms(1,2,3) s assms(3), of d] i skip_neq[of p a] by simp
qed

lemma step_p_coordinate:
  assumes step: "step_p L rho nt n ns emp p s = Inr s'"
    and stack: "is_stack n nt (cur_omega s)" and p: "p < n" and m: "m < n - 1"
  shows "\<exists>ym wm ym' wm'.
           for_loop (coordinate rho nt ns emp (cur_Winv s')
                       (map (\<lambda>k. del p (col (emp ! k) p)) [0..<nt]) p) [0..<m]
             (map (\<lambda>k. del p (col (cur_omega s ! k) p)) [0..<nt], n_warned s) = Inr (ym, wm)
         \<and> coordinate rho nt ns emp (cur_Winv s') (map (\<lambda>k. del p (col (emp ! k) p)) [0..<nt]) p m
             (ym, wm) = Inr (ym', wm')
         \<and> length ym = nt \<and> (\<forall>k<nt. length (ym ! k) = n - 1)
         \<and> n_warned s \<le> wm \<and> wm' \<le> n_warned s'
         \<and> (\<forall>k<nt. cur_omega s' ! k ! p ! skip p m = ym' ! k ! m
                  \<and> cur_omega s' ! k ! skip p m ! p = ym' ! k ! m)"
proof -
  let ?y0 = "map (\<lambda>k. del p (col (cur_omega s ! k) p)) [0..<nt]"
  let ?u = "map (\<lambda>k. del p (col (emp ! k) p)) [0..<nt]"
  from step obtain W' Winv' yz wz where
    loop: "for_loop (coordinate rho nt ns emp Winv' ?u p) [0..<n - 1] (?y0, n_warned s)
             = Inr (yz, wz)"
    and s': "s' = \<lparr>cur_omega = map (\<lambda>k. write_back p (yz ! k)
                                  (new_diagonal (emp ! k ! p ! p) (yz ! k) (Winv' ! k))
                                  (cur_omega s ! k)) [0..<nt],
                   cur_W = W', cur_Winv = Winv', n_warned = wz\<rparr>"
    unfolding step_p_def Let_def
    by (auto split: sum.splits prod.splits if_splits)
  have l0: "length ?y0 = nt" by simp
  have lrow: "length (?y0 ! k) = n - 1" if "k < nt" for k
  proof -
    have "is_mat n n (cur_omega s ! k)" by (rule is_stack_nth[OF stack that])
    then have "length (col (cur_omega s ! k) p) = n" by (simp add: is_mat_def)
    then show ?thesis using that p by (simp add: length_del')
  qed
  from coordinate_loop_shape[OF loop l0]
  have lz: "length yz = nt" and lzrow: "\<forall>k<nt. length (yz ! k) = length (?y0 ! k)" by simp_all
  from coordinate_loop_at[OF loop l0 m]
  obtain ym wm ym' wm' where c:
    "coordinate rho nt ns emp Winv' ?u p m (ym, wm) = Inr (ym', wm')"
    "length ym = nt" "n_warned s \<le> wm" "wm' \<le> wz" "\<forall>k<nt. yz ! k ! m = ym' ! k ! m"
    and c': "\<forall>k<nt. length (ym ! k) = length (?y0 ! k)"
    and c0: "for_loop (coordinate rho nt ns emp Winv' ?u p) [0..<m] (?y0, n_warned s)
               = Inr (ym, wm)"
    by blast
  have c6: "\<forall>k<nt. length (ym ! k) = n - 1" using c' lrow by simp
  have ent: "cur_omega s' ! k ! p ! skip p m = ym' ! k ! m
           \<and> cur_omega s' ! k ! skip p m ! p = ym' ! k ! m" if k: "k < nt" for k
  proof -
    have A: "is_mat n n (cur_omega s ! k)" by (rule is_stack_nth[OF stack k])
    have ly: "length (yz ! k) = n - 1" using lzrow lrow k by simp
    have "cur_omega s' ! k = write_back p (yz ! k)
            (new_diagonal (emp ! k ! p ! p) (yz ! k) (Winv' ! k)) (cur_omega s ! k)"
      using k by (simp add: s')
    then show ?thesis
      using write_back_row_col[OF A ly p m] c(5) k by simp
  qed
  have W: "cur_Winv s' = Winv'" and w: "n_warned s' = wz" by (simp_all add: s')
  show ?thesis
    unfolding W w using c0 c(1,2,3,4) c6 ent by blast
qed

lemma coordinate_newton_branch:
  fixes ns :: vec and emp Winv :: stack and y u :: mat and p m nt :: nat
  assumes "length y = nt"
  defines "c \<equiv> map (coord_c ns emp Winv y u p m) [0..<nt]"
  defines "q \<equiv> map (coord_q ns emp Winv p m) [0..<nt]"
  assumes big: "\<not> norm2 c \<le> rho" and a: "root_find rho c q = Inr alpha"
    and nz: "\<forall>k<nt. 1 + alpha * q ! k \<noteq> 0"
  shows "\<exists>y'. coordinate rho nt ns emp Winv u p m (y, w)
              = Inr (y', if \<bar>trust_region_g rho c q alpha\<bar> > 1 / 10 then Suc w else w)
            \<and> length y' = nt
            \<and> (\<forall>k<nt. y' ! k = (y ! k)[m := alpha * c ! k / (1 + alpha * q ! k)])"
proof -
  let ?x = "map2 (\<lambda>ck qk. (alpha * ck) / (1 + alpha * qk)) c q"
  have lc: "length c = nt" and lq: "length q = nt" by (simp_all add: c_def q_def)
  have lx: "length ?x = nt" using lc lq by simp
  have r: "quad_trust_region alpha q (map2 (\<lambda>a b. 2 * a * b) (map2 (*) c c) q)
             (map2 (*) c c) (rho\<^sup>2) = Some (trust_region_g rho c q alpha)"
    by (rule quad_trust_region_Some[OF lc lq nz])
  have "coordinate rho nt ns emp Winv u p m (y, w)
      = Inr (set_col m ?x y, if \<bar>trust_region_g rho c q alpha\<bar> > 1 / 10 then Suc w else w)"
    unfolding coordinate_unfold Let_def c_def[symmetric] q_def[symmetric]
    using big a r by simp
  moreover have "length (set_col m ?x y) = nt" using assms(1) lc lq by (simp add: set_col_def)
  moreover have "\<forall>k<nt. set_col m ?x y ! k = (y ! k)[m := alpha * c ! k / (1 + alpha * q ! k)]"
  proof (intro allI impI)
    fix k assume k: "k < nt"
    have "?x ! k = alpha * c ! k / (1 + alpha * q ! k)" using k lc lq by simp
    then show "set_col m ?x y ! k = (y ! k)[m := alpha * c ! k / (1 + alpha * q ! k)]"
      using set_col_row[OF assms(1) lx k] by simp
  qed
  ultimately show ?thesis by blast
qed

lemma root_find_iterate:
  fixes c q :: vec and rho :: real
  defines "g \<equiv> \<lambda>a. quad_trust_region a q (map2 (\<lambda>a b. 2 * a * b) (map2 (*) c c) q)
                      (map2 (*) c c) (rho\<^sup>2)"
  defines "g' \<equiv> \<lambda>a. quad_trust_region_deriv a q (map2 (\<lambda>a b. 2 * a * b) (map2 (*) c c) q)
                      (map2 (*) c c) (rho\<^sup>2)"
  assumes "root_find rho c q = Inr alpha"
  shows "\<exists>j\<le>50. alpha = newton_iterate g g' j 0
           \<and> ((g' alpha = Some 0 \<and> j < 50)
              \<or> (1 \<le> j \<and> \<bar>alpha - newton_iterate g g' (j - 1) 0\<bar> < 15 / 10 ^ 7))"
proof -
  have "newton_loop g g' (15 / 10 ^ 7) 50 0 = Inr alpha"
    using assms(3) unfolding root_find_def Let_def newton_def g_def g'_def .
  from newton_loop_iterate[OF this] show ?thesis .
qed

lemma step_p_written:
  fixes ns :: vec and emp :: stack
  assumes step: "step_p L rho nt n ns emp p s = Inr s'"
    and stack: "is_stack n nt (cur_omega s)" and p: "p < n" and m: "m < n - 1"
  shows "\<exists>ym wm.
            for_loop (coordinate rho nt ns emp (cur_Winv s')
                        (map (\<lambda>k. del p (col (emp ! k) p)) [0..<nt]) p) [0..<m]
              (map (\<lambda>k. del p (col (cur_omega s ! k) p)) [0..<nt], n_warned s) = Inr (ym, wm)
          \<and> (let u = map (\<lambda>k. del p (col (emp ! k) p)) [0..<nt];
                  c = map (coord_c ns emp (cur_Winv s') ym u p m) [0..<nt];
                  q = map (coord_q ns emp (cur_Winv s') p m) [0..<nt]
              in if norm2 c \<le> rho
                 then wm \<le> n_warned s'
                    \<and> (\<forall>k<nt. cur_omega s' ! k ! p ! skip p m = 0
                             \<and> cur_omega s' ! k ! skip p m ! p = 0)
                 else (\<exists>alpha. root_find rho c q = Inr alpha
                    \<and> (if \<bar>trust_region_g rho c q alpha\<bar> > 1 / 10 then Suc wm else wm)
                        \<le> n_warned s'
                    \<and> (\<forall>k<nt. cur_omega s' ! k ! p ! skip p m
                                 = alpha * c ! k / (1 + alpha * q ! k)
                             \<and> cur_omega s' ! k ! skip p m ! p
                                 = alpha * c ! k / (1 + alpha * q ! k))))"
proof -
  let ?u = "map (\<lambda>k. del p (col (emp ! k) p)) [0..<nt]"
  from step_p_coordinate[OF assms] obtain ym wm ym' wm' where
    pre: "for_loop (coordinate rho nt ns emp (cur_Winv s') ?u p) [0..<m]
              (map (\<lambda>k. del p (col (cur_omega s ! k) p)) [0..<nt], n_warned s) = Inr (ym, wm)"
    and co: "coordinate rho nt ns emp (cur_Winv s') ?u p m (ym, wm) = Inr (ym', wm')"
    and l: "length ym = nt" and lr: "\<forall>k<nt. length (ym ! k) = n - 1"
    and w: "n_warned s \<le> wm" and w': "wm' \<le> n_warned s'"
    and ent: "\<forall>k<nt. cur_omega s' ! k ! p ! skip p m = ym' ! k ! m
                  \<and> cur_omega s' ! k ! skip p m ! p = ym' ! k ! m"
    by blast
  define c where "c = map (coord_c ns emp (cur_Winv s') ym ?u p m) [0..<nt]"
  define q where "q = map (coord_q ns emp (cur_Winv s') p m) [0..<nt]"
  have lc: "length c = nt" and lq: "length q = nt" by (simp_all add: c_def q_def)
  have body: "if norm2 c \<le> rho
                 then wm \<le> n_warned s'
                    \<and> (\<forall>k<nt. cur_omega s' ! k ! p ! skip p m = 0
                             \<and> cur_omega s' ! k ! skip p m ! p = 0)
                 else (\<exists>alpha. root_find rho c q = Inr alpha
                    \<and> (if \<bar>trust_region_g rho c q alpha\<bar> > 1 / 10 then Suc wm else wm)
                        \<le> n_warned s'
                    \<and> (\<forall>k<nt. cur_omega s' ! k ! p ! skip p m
                                 = alpha * c ! k / (1 + alpha * q ! k)
                             \<and> cur_omega s' ! k ! skip p m ! p
                                 = alpha * c ! k / (1 + alpha * q ! k)))"
  proof (cases "norm2 c \<le> rho")
    case True
    from co True have y': "ym' = set_col m (map (\<lambda>k. 0) [0..<nt]) ym" and ww: "wm' = wm"
      unfolding coordinate_unfold Let_def c_def[symmetric] by simp_all
    have "ym' ! k ! m = 0" if "k < nt" for k
      unfolding y' using set_col_row[OF l _ that, of "map (\<lambda>k. 0) [0..<nt]" m] lr m that
      by simp
    then show ?thesis using True ent w' ww by simp
  next
    case False
    let ?x = "\<lambda>alpha. map2 (\<lambda>ck qk. (alpha * ck) / (1 + alpha * qk)) c q"
    from co False obtain alpha r where a: "root_find rho c q = Inr alpha"
      and r: "quad_trust_region alpha q (map2 (\<lambda>a b. 2 * a * b) (map2 (*) c c) q)
                (map2 (*) c c) (rho\<^sup>2) = Some r"
      and y': "ym' = set_col m (?x alpha) ym"
      and ww: "wm' = (if \<bar>r\<bar> > 1 / 10 then Suc wm else wm)"
      unfolding coordinate_unfold Let_def c_def[symmetric] q_def[symmetric]
      by (auto split: sum.splits option.splits)
    have nz: "\<forall>k<nt. 1 + alpha * q ! k \<noteq> 0"
    proof (rule ccontr)
      assume "\<not> ?thesis"
      from quad_trust_region_None(1)[OF lq this] r show False by simp
    qed
    have rr: "r = trust_region_g rho c q alpha"
      using quad_trust_region_Some[OF lc lq nz, of "map2 (\<lambda>a b. 2 * a * b) (map2 (*) c c) q" rho] r
      by simp
    have lx: "length (?x alpha) = nt" using lc lq by simp
    have "ym' ! k ! m = alpha * c ! k / (1 + alpha * q ! k)" if "k < nt" for k
    proof -
      have "?x alpha ! k = alpha * c ! k / (1 + alpha * q ! k)" using that lc lq by simp
      then show ?thesis
        unfolding y' using set_col_row[OF l lx that, of m] lr m that by simp
    qed
    then have "\<forall>k<nt. cur_omega s' ! k ! p ! skip p m = alpha * c ! k / (1 + alpha * q ! k)
                   \<and> cur_omega s' ! k ! skip p m ! p = alpha * c ! k / (1 + alpha * q ! k)"
      using ent by simp
    moreover have "(if \<bar>trust_region_g rho c q alpha\<bar> > 1 / 10 then Suc wm else wm)
                     \<le> n_warned s'"
      using w' ww rr by simp
    ultimately have "\<exists>alpha. root_find rho c q = Inr alpha
                    \<and> (if \<bar>trust_region_g rho c q alpha\<bar> > 1 / 10 then Suc wm else wm)
                        \<le> n_warned s'
                    \<and> (\<forall>k<nt. cur_omega s' ! k ! p ! skip p m
                                 = alpha * c ! k / (1 + alpha * q ! k)
                             \<and> cur_omega s' ! k ! skip p m ! p
                                 = alpha * c ! k / (1 + alpha * q ! k))"
      using a by blast
    then show ?thesis using False by simp
  qed
  show ?thesis
    apply (rule exI[of _ ym], rule exI[of _ wm])
    unfolding Let_def using pre body unfolding c_def q_def by simp
qed

lemma warn_root_find: "root_find 1 [2] [10000000] = Inr (3 / 80000000)"
  unfolding root_find_def newton_def Let_def newton_loop_50 newton_loop.simps
  by (simp add: quad_trust_region_def quad_trust_region_deriv_def power2_eq_square
      power3_eq_cube)

lemma warn_residual: "trust_region_g 1 [2] [10000000] (3 / 80000000) = - 135 / 121"
  by (simp add: trust_region_g_def power2_eq_square)

lemma warn_c:
  "map (coord_c [1] [[[10000000, - 2], [- 2, 1]]] [[[1]]] [[0]] [[- 2]] 0 0) [0..<Suc 0] = [2]"
  by (simp add: coord_c_def del_def col_def dot_def)

lemma warn_q:
  "map (coord_q [1] [[[10000000, - 2], [- 2, 1]]] [[[1]]] 0 0) [0..<Suc 0] = [10000000]"
  by (simp add: coord_q_def)

lemma warn_norm: "norm2 [2] = 2"
  by (simp add: norm2_def)

lemma warn_coordinate:
  "coordinate 1 (Suc 0) [1] [[[10000000, - 2], [- 2, 1]]] [[[1]]] [[- 2]] 0 0 ([[0]], 0)
     = Inr ([[3 / 55000000]], Suc 0)"
  unfolding coordinate_unfold Let_def warn_c warn_q warn_norm warn_root_find
  by (simp add: quad_trust_region_def set_col_def power2_eq_square)

lemma warn_step:
  "step_p small_lib 1 (Suc 0) 2 [1] [[[10000000, - 2], [- 2, 1]]] 0
      \<lparr>cur_omega = [[[1, 0], [0, 1]]], cur_W = [], cur_Winv = [], n_warned = 0\<rparr>
   = Inr \<lparr>cur_omega = [[[1 / 10000000 + (3 / 55000000) * (3 / 55000000), 3 / 55000000],
                         [3 / 55000000, 1]]],
          cur_W = [[[1]]], cur_Winv = [[[1]]], n_warned = Suc 0\<rparr>"
proof -
  have m: "maintain small_lib (Suc 0) 0 [[[1, 0], [0, 1]]] ([], []) = Inr ([[[1]]], [[[1]]])"
    by (simp add: maintain_def small_lib_def eval_arrays Let_def)
  have y: "map (\<lambda>k. del 0 (col ([[[1, 0], [0, 1]]] ! k) 0)) [0..<Suc 0] = ([[0]] :: mat)"
    by (simp add: eval_arrays)
  have u: "map (\<lambda>k. del 0 (col ([[[10000000, - 2], [- 2, 1]]] ! k) 0)) [0..<Suc 0] = ([[- 2]] :: mat)"
    by (simp add: eval_arrays)
  have l: "for_loop (coordinate 1 (Suc 0) [1] [[[10000000, - 2], [- 2, 1]]] [[[1]]] [[- 2]] 0) [0..<2 - 1]
             ([[0]], 0) = Inr ([[3 / 55000000]], Suc 0)"
    by (simp add: upt_0_1 warn_coordinate)
  show ?thesis
    unfolding step_p_def Let_def sweep_state.simps m y u
    by (simp only: l prod.case sum.case)
      (simp add: upt_0_1 write_back_def new_diagonal_def eval_arrays)
qed

text \<open>
  What holds of every root-find that returns. Whenever the norm of \<open>c\<close> exceeds \<open>rho\<close>, the
  root-find is the Newton-Raphson iteration on \<open>g\<close> started at 0 with a budget of 50
  iterations and the step tolerance \<^verbatim>\<open>1.5e-6\<close>; the \<open>alpha\<close> it returns is the \<open>j\<close>-th
  iterate for some \<open>j \<le> 50\<close>, reached either because the derivative vanished there or
  because the last step was shorter than the tolerance. With that \<open>alpha\<close> (and a finite
  residual) the coordinate update returns: the warning count grows by one exactly when
  \<open>\<bar>g(alpha)\<bar> > 0.1\<close>, and in both cases \<open>alpha * c(k) / (1 + alpha * q(k))\<close> is stored in
  \<open>y[k, m]\<close>. After the step for the row \<open>p\<close>, that value stands in row \<open>p\<close> and in column
  \<open>p\<close> of every precision matrix, at the index of coordinate \<open>m\<close>, and the warning is
  counted in the state the loop goes on with.
\<close>

theorem newton_budget_and_warning:
  fixes n_samples :: vec and emp_covs Winv :: stack and y u :: mat and p m n_tasks :: nat
    and rho :: real
  assumes "length y = n_tasks"
  defines "c \<equiv> map (coord_c n_samples emp_covs Winv y u p m) [0..<n_tasks]"
  defines "q \<equiv> map (coord_q n_samples emp_covs Winv p m) [0..<n_tasks]"
  defines "g \<equiv> \<lambda>a. quad_trust_region a q (map2 (\<lambda>a b. 2 * a * b) (map2 (*) c c) q)
                      (map2 (*) c c) (rho\<^sup>2)"
  defines "g' \<equiv> \<lambda>a. quad_trust_region_deriv a q (map2 (\<lambda>a b. 2 * a * b) (map2 (*) c c) q)
                      (map2 (*) c c) (rho\<^sup>2)"
  assumes "\<not> norm2 c \<le> rho"
  shows "root_find rho c q = newton g 0 g' 50 (15 / 10 ^ 7)
       \<and> (\<forall>alpha. root_find rho c q = Inr alpha \<longrightarrow>
            (\<exists>j\<le>50. alpha = newton_iterate g g' j 0
                 \<and> ((g' alpha = Some 0 \<and> j < 50)
                    \<or> (1 \<le> j \<and> \<bar>alpha - newton_iterate g g' (j - 1) 0\<bar> < 15 / 10 ^ 7)))
          \<and> ((\<forall>k<n_tasks. 1 + alpha * q ! k \<noteq> 0) \<longrightarrow>
               (\<exists>y'. coordinate rho n_tasks n_samples emp_covs Winv u p m (y, w)
                        = Inr (y', if \<bar>trust_region_g rho c q alpha\<bar> > 1 / 10
                                   then Suc w else w)
                    \<and> length y' = n_tasks
                    \<and> (\<forall>k<n_tasks. y' ! k
                          = (y ! k)[m := alpha * c ! k / (1 + alpha * q ! k)]))))
       \<and> (\<forall>L n s s'. step_p L rho n_tasks n n_samples emp_covs p s = Inr s'
              \<and> is_stack n n_tasks (cur_omega s) \<and> p < n \<and> m < n - 1 \<longrightarrow>
            (\<exists>ym wm.
               for_loop (coordinate rho n_tasks n_samples emp_covs (cur_Winv s')
                           (map (\<lambda>k. del p (col (emp_covs ! k) p)) [0..<n_tasks]) p) [0..<m]
                 (map (\<lambda>k. del p (col (cur_omega s ! k) p)) [0..<n_tasks], n_warned s)
                 = Inr (ym, wm)
             \<and> (let um = map (\<lambda>k. del p (col (emp_covs ! k) p)) [0..<n_tasks];
                     cm = map (coord_c n_samples emp_covs (cur_Winv s') ym um p m) [0..<n_tasks];
                     qm = map (coord_q n_samples emp_covs (cur_Winv s') p m) [0..<n_tasks]
                 in if norm2 cm \<le> rho
                    then wm \<le> n_warned s'
                       \<and> (\<forall>k<n_tasks. cur_omega s' ! k ! p ! skip p m = 0
                                \<and> cur_omega s' ! k ! skip p m ! p = 0)
                    else (\<exists>alpha. root_find rho cm qm = Inr alpha
                       \<and> (if \<bar>trust_region_g rho cm qm alpha\<bar> > 1 / 10 then Suc wm else wm)
                           \<le> n_warned s'
                       \<and> (\<forall>k<n_tasks. cur_omega s' ! k ! p ! skip p m
                                    = alpha * cm ! k / (1 + alpha * qm ! k)
                                \<and> cur_omega s' ! k ! skip p m ! p
                                    = alpha * cm ! k / (1 + alpha * qm ! k))))))"
proof (intro conjI allI impI)
  show "root_find rho c q = newton g 0 g' 50 (15 / 10 ^ 7)"
    by (simp add: root_find_def Let_def g_def g'_def)
next
  fix alpha assume "root_find rho c q = Inr alpha"
  then show "\<exists>j\<le>50. alpha = newton_iterate g g' j 0
                 \<and> ((g' alpha = Some 0 \<and> j < 50)
                    \<or> (1 \<le> j \<and> \<bar>alpha - newton_iterate g g' (j - 1) 0\<bar> < 15 / 10 ^ 7))"
    unfolding g_def g'_def by (rule root_find_iterate)
next
  fix alpha assume a: "root_find rho c q = Inr alpha"
    and nz: "\<forall>k<n_tasks. 1 + alpha * q ! k \<noteq> 0"
  show "\<exists>y'. coordinate rho n_tasks n_samples emp_covs Winv u p m (y, w)
                        = Inr (y', if \<bar>trust_region_g rho c q alpha\<bar> > 1 / 10
                                   then Suc w else w)
                    \<and> length y' = n_tasks
                    \<and> (\<forall>k<n_tasks. y' ! k
                          = (y ! k)[m := alpha * c ! k / (1 + alpha * q ! k)])"
    unfolding c_def q_def
    by (rule coordinate_newton_branch[OF assms(1)])
       (use assms(6) a nz in \<open>simp_all add: c_def q_def\<close>)
next
  fix L n s s'
  assume h: "step_p L rho n_tasks n n_samples emp_covs p s = Inr s'
              \<and> is_stack n n_tasks (cur_omega s) \<and> p < n \<and> m < n - 1"
  then have 1: "step_p L rho n_tasks n n_samples emp_covs p s = Inr s'"
    and 2: "is_stack n n_tasks (cur_omega s)" and 3: "p < n" and 4: "m < n - 1"
    by simp_all
  show "\<exists>ym wm.
               for_loop (coordinate rho n_tasks n_samples emp_covs (cur_Winv s')
                           (map (\<lambda>k. del p (col (emp_covs ! k) p)) [0..<n_tasks]) p) [0..<m]
                 (map (\<lambda>k. del p (col (cur_omega s ! k) p)) [0..<n_tasks], n_warned s)
                 = Inr (ym, wm)
             \<and> (let um = map (\<lambda>k. del p (col (emp_covs ! k) p)) [0..<n_tasks];
                     cm = map (coord_c n_samples emp_covs (cur_Winv s') ym um p m) [0..<n_tasks];
                     qm = map (coord_q n_samples emp_covs (cur_Winv s') p m) [0..<n_tasks]
                 in if norm2 cm \<le> rho
                    then wm \<le> n_warned s'
                       \<and> (\<forall>k<n_tasks. cur_omega s' ! k ! p ! skip p m = 0
                                \<and> cur_omega s' ! k ! skip p m ! p = 0)
                    else (\<exists>alpha. root_find rho cm qm = Inr alpha
                       \<and> (if \<bar>trust_region_g rho cm qm alpha\<bar> > 1 / 10 then Suc wm else wm)
                           \<le> n_warned s'
                       \<and> (\<forall>k<n_tasks. cur_omega s' ! k ! p ! skip p m
                                    = alpha * cm ! k / (1 + alpha * qm ! k)
                                \<and> cur_omega s' ! k ! skip p m ! p
                                    = alpha * cm ! k / (1 + alpha * qm ! k))))"
    by (rule step_p_written[OF 1 2 3 4])
qed

theorem newton_budget_and_warning_witness:
  "(\<exists>j\<le>50. (3 / 80000000 :: real)
        = newton_iterate (\<lambda>a. quad_trust_region a [10000000] [80000000] [4] 1)
            (\<lambda>a. quad_trust_region_deriv a [10000000] [80000000] [4] 1) j 0
      \<and> 1 \<le> j
      \<and> \<bar>3 / 80000000 - newton_iterate (\<lambda>a. quad_trust_region a [10000000] [80000000] [4] 1)
            (\<lambda>a. quad_trust_region_deriv a [10000000] [80000000] [4] 1) (j - 1) 0\<bar>
          < 15 / 10 ^ 7)
   \<and> (\<exists>y'. coordinate 1 (Suc 0) [1] [[[10000000, - 2], [- 2, 1]]] [[[1]]] [[- 2]] 0 0 ([[0]], 0)
              = Inr (y', Suc 0)
          \<and> y' ! 0 = [3 / 55000000])
   \<and> (\<exists>alpha. root_find 1 [2] [10000000] = Inr alpha
          \<and> (3 / 55000000 :: real) = alpha * 2 / (1 + alpha * 10000000))"
proof -
  have l: "length ([[0]] :: mat) = Suc 0" by simp
  note T = newton_budget_and_warning [OF l, where n_samples = "[1]"
      and emp_covs = "[[[10000000, - 2], [- 2, 1]]]" and Winv = "[[[1]]]" and u = "[[- 2]]"
      and p = 0 and m = 0 and rho = 1 and w = 0, unfolded warn_c warn_q warn_norm]
  have big: "\<not> (2 :: real) \<le> 1" by simp
  note B = T[OF big, THEN conjunct2, THEN conjunct1, rule_format, OF warn_root_find]
  note C = T[OF big, THEN conjunct2, THEN conjunct2, rule_format, of small_lib 2
      "\<lparr>cur_omega = [[[1, 0], [0, 1]]], cur_W = [], cur_Winv = [], n_warned = 0\<rparr>"
      "\<lparr>cur_omega = [[[1 / 10000000 + (3 / 55000000) * (3 / 55000000), 3 / 55000000],
                         [3 / 55000000, 1]]],
          cur_W = [[[1]]], cur_Winv = [[[1]]], n_warned = Suc 0\<rparr>"]
  have der: "quad_trust_region_deriv (3 / 80000000) [10000000] [80000000] [4] 1 \<noteq> Some 0"
    by (simp add: quad_trust_region_deriv_def)
  have 1: "\<exists>j\<le>50. (3 / 80000000 :: real)
        = newton_iterate (\<lambda>a. quad_trust_region a [10000000] [80000000] [4] 1)
            (\<lambda>a. quad_trust_region_deriv a [10000000] [80000000] [4] 1) j 0
      \<and> 1 \<le> j
      \<and> \<bar>3 / 80000000 - newton_iterate (\<lambda>a. quad_trust_region a [10000000] [80000000] [4] 1)
            (\<lambda>a. quad_trust_region_deriv a [10000000] [80000000] [4] 1) (j - 1) 0\<bar>
          < 15 / 10 ^ 7"
    using B[THEN conjunct1] der by simp
  have 2: "\<exists>y'. coordinate 1 (Suc 0) [1] [[[10000000, - 2], [- 2, 1]]] [[[1]]] [[- 2]] 0 0 ([[0]], 0)
              = Inr (y', Suc 0)
          \<and> y' ! 0 = [3 / 55000000]"
  proof -
    from B[THEN conjunct2]
    have "\<exists>y'. coordinate 1 (Suc 0) [1] [[[10000000, - 2], [- 2, 1]]] [[[1]]] [[- 2]] 0 0
                  ([[0]], 0) = Inr (y', Suc 0)
              \<and> length y' = Suc 0 \<and> y' ! 0 = [3 / 55000000]"
      by (simp add: warn_residual)
    then show ?thesis by blast
  qed
  have 3: "\<exists>alpha. root_find 1 [2] [10000000] = Inr alpha
          \<and> (3 / 55000000 :: real) = alpha * 2 / (1 + alpha * 10000000)"
  proof -
    from C warn_step
    have "\<exists>alpha. root_find 1 [2] [10000000] = Inr alpha
          \<and> (if \<bar>trust_region_g 1 [2] [10000000] alpha\<bar> > 1 / 10 then Suc 0 else 0) \<le> Suc 0
          \<and> (3 / 55000000 :: real) = alpha * 2 / (1 + alpha * 10000000)"
      by (simp add: is_stack_def is_mat_def skip_def coord_c_def coord_q_def warn_norm Let_def
          eval_arrays)
    then show ?thesis by blast
  qed
  from 1 2 3 show ?thesis by blast
qed


text \<open>
  C7. The claim has every coordinate root-find end with a value that is written into the
  precision stack, with at most a warning. The code does not do that for a root-find
  that uses up its 50 iterations: \<^verbatim>\<open>scipy.optimize.newton\<close> then raises \<^verbatim>\<open>RuntimeError\<close>,
  line 392 does not catch it, and neither the warning of line 401 nor the assignment of
  line 408 is reached. This is the first step of the first sweep of the call
  \<^verbatim>\<open>group_sparse_covariance([[[1, 0], [1, 1]]], 0, assume_centered=True)\<close>: the empirical
  covariance is \<open>[[1, 1/2], [1/2, 1/2]]\<close>, the start value \<open>diag(1, 2)\<close>, and for
  \<open>p = 0\<close>, \<open>m = 0\<close> the coefficients are \<open>c = -1/2\<close> and \<open>q = 1/2\<close>.
\<close>

theorem newton_budget_exhausted:
  "root_find 0 [- 1 / 2] [1 / 2] = Inl RuntimeError
   \<and> step_p small_lib 0 (Suc 0) 2 [1] [[[1, 1 / 2], [1 / 2, 1 / 2]]] 0
        \<lparr>cur_omega = [[[1, 0], [0, 2]]], cur_W = [], cur_Winv = [], n_warned = 0\<rparr>
      = Inl RuntimeError"
  using rho_zero_root_find rho_zero_step by simp


section \<open>The loop over sweeps\<close>

lemma driver_loop_char:
  "driver_loop L rho tol rc n_tasks n_var n_samples emp_covs n d = Inr d' \<Longrightarrow>
   \<exists>k\<le>n. sweeps_done d' = sweeps_done d + k \<and> (0 < n \<longrightarrow> 1 \<le> k)
     \<and> run_sweeps L rho n_tasks n_var n_samples emp_covs k (sw d) = Inr (sw d')
     \<and> (tol = None \<longrightarrow> k = n)
     \<and> (\<forall>t. tol = Some t \<longrightarrow>
           (k < n \<longrightarrow> (\<exists>g. duality_gap L n_tasks n_var n_samples rho (cur_omega (sw d')) emp_covs
                             = Some g \<and> g < t))
         \<and> (\<forall>j. 1 \<le> j \<and> j < k \<longrightarrow>
               (\<exists>s g. run_sweeps L rho n_tasks n_var n_samples emp_covs j (sw d) = Inr s
                  \<and> duality_gap L n_tasks n_var n_samples rho (cur_omega s) emp_covs = Some g
                  \<and> \<not> g < t)))"
proof (induction n arbitrary: d)
  case 0
  then show ?case by simp
next
  case (Suc n)
  from Suc.prems obtain s1 where s1: "sweep L rho n_tasks n_var n_samples emp_covs (sw d) = Inr s1"
    by (auto split: sum.splits)
  let ?cost = "group_sparse_covariance_costs L n_tasks n_var n_samples rho (cur_omega s1) emp_covs"
  let ?og = "if rc \<or> tol \<noteq> None then map_sum id Some ?cost else Inr None"
  from Suc.prems s1 obtain og where og: "?og = Inr og"
    by (auto split: sum.splits)
  let ?d1 = "\<lparr>sw = s1, cost_trace = (if rc then cost_trace d @ [the og] else cost_trace d),
              sweeps_done = Suc (sweeps_done d)\<rparr>"
  show ?case
  proof (cases "tol \<noteq> None \<and> snd (the og) < the tol")
    case True
    with Suc.prems s1 og have d': "d' = ?d1" by (simp add: Let_def)
    from True obtain t where t: "tol = Some t" by auto
    with og obtain cg where cg: "?cost = Inr cg" "og = Some cg"
      by (cases ?cost) auto
    with True t have gap: "duality_gap L n_tasks n_var n_samples rho (cur_omega s1) emp_covs
        = Some (snd cg)" "snd cg < t"
      by (auto simp: duality_gap_def)
    show ?thesis
      apply (rule exI[of _ 1])
      using d' s1 t gap by auto
  next
    case False
    with Suc.prems s1 og have rec:
      "driver_loop L rho tol rc n_tasks n_var n_samples emp_covs n ?d1 = Inr d'"
      by (auto simp: Let_def)
    from Suc.IH[OF rec] obtain k where k: "k \<le> n" "sweeps_done d' = Suc (sweeps_done d) + k"
      "run_sweeps L rho n_tasks n_var n_samples emp_covs k s1 = Inr (sw d')"
      "tol = None \<longrightarrow> k = n"
      "\<forall>t. tol = Some t \<longrightarrow>
           (k < n \<longrightarrow> (\<exists>g. duality_gap L n_tasks n_var n_samples rho (cur_omega (sw d')) emp_covs
                             = Some g \<and> g < t))
         \<and> (\<forall>j. 1 \<le> j \<and> j < k \<longrightarrow>
               (\<exists>s g. run_sweeps L rho n_tasks n_var n_samples emp_covs j s1 = Inr s
                  \<and> duality_gap L n_tasks n_var n_samples rho (cur_omega s) emp_covs = Some g
                  \<and> \<not> g < t))"
      by auto
    have first: "\<And>t. tol = Some t \<Longrightarrow>
       \<exists>g. duality_gap L n_tasks n_var n_samples rho (cur_omega s1) emp_covs = Some g \<and> \<not> g < t"
    proof -
      fix t assume t: "tol = Some t"
      with og obtain cg where cg: "?cost = Inr cg" "og = Some cg"
        by (cases ?cost) auto
      with False t show "\<exists>g. duality_gap L n_tasks n_var n_samples rho (cur_omega s1) emp_covs = Some g \<and> \<not> g < t"
        by (auto simp: duality_gap_def)
    qed
    have later: "\<And>t j. tol = Some t \<Longrightarrow> 1 \<le> j \<Longrightarrow> j < Suc k \<Longrightarrow>
         \<exists>s g. run_sweeps L rho n_tasks n_var n_samples emp_covs j (sw d) = Inr s
                  \<and> duality_gap L n_tasks n_var n_samples rho (cur_omega s) emp_covs = Some g
                  \<and> \<not> g < t"
    proof -
      fix t j assume t: "tol = Some t" and j: "1 \<le> j" "j < Suc k"
      then obtain i where i: "j = Suc i" by (cases j) auto
      show "\<exists>s g. run_sweeps L rho n_tasks n_var n_samples emp_covs j (sw d) = Inr s
                  \<and> duality_gap L n_tasks n_var n_samples rho (cur_omega s) emp_covs = Some g
                  \<and> \<not> g < t"
      proof (cases i)
        case 0
        with i s1 first[OF t] show ?thesis by auto
      next
        case (Suc i')
        with i j k(5) t s1 show ?thesis by auto
      qed
    qed
    show ?thesis
      apply (rule exI[of _ "Suc k"])
      using k s1 later by auto
  qed
qed

lemma driver_loop_returns:
  "(\<forall>j. 1 \<le> j \<and> j \<le> n \<longrightarrow>
      (\<exists>s. run_sweeps L rho n_tasks n_var n_samples emp_covs j (sw d) = Inr s
         \<and> (rc \<or> tol \<noteq> None \<longrightarrow>
              duality_gap L n_tasks n_var n_samples rho (cur_omega s) emp_covs \<noteq> None)))
   \<Longrightarrow> \<exists>d'. driver_loop L rho tol rc n_tasks n_var n_samples emp_covs n d = Inr d'"
proof (induction n arbitrary: d)
  case 0
  then show ?case by simp
next
  case (Suc n)
  from Suc.prems[rule_format, of 1] obtain s1 where
    s1: "sweep L rho n_tasks n_var n_samples emp_covs (sw d) = Inr s1"
    and c1: "rc \<or> tol \<noteq> None \<longrightarrow>
              duality_gap L n_tasks n_var n_samples rho (cur_omega s1) emp_covs \<noteq> None"
    by (auto split: sum.splits)
  let ?cost = "group_sparse_covariance_costs L n_tasks n_var n_samples rho (cur_omega s1) emp_covs"
  let ?og = "if rc \<or> tol \<noteq> None then map_sum id Some ?cost else Inr None"
  have "\<exists>og. ?og = Inr og"
    using c1 by (cases ?cost; cases "rc \<or> tol \<noteq> None") (auto simp: duality_gap_def)
  then obtain og where og: "?og = Inr og" ..
  let ?d1 = "\<lparr>sw = s1, cost_trace = (if rc then cost_trace d @ [the og] else cost_trace d),
              sweeps_done = Suc (sweeps_done d)\<rparr>"
  have "\<forall>j. 1 \<le> j \<and> j \<le> n \<longrightarrow>
      (\<exists>s. run_sweeps L rho n_tasks n_var n_samples emp_covs j (sw ?d1) = Inr s
         \<and> (rc \<or> tol \<noteq> None \<longrightarrow>
              duality_gap L n_tasks n_var n_samples rho (cur_omega s) emp_covs \<noteq> None))"
  proof (intro allI impI)
    fix j assume "1 \<le> j \<and> j \<le> n"
    with Suc.prems[rule_format, of "Suc j"] s1
    show "\<exists>s. run_sweeps L rho n_tasks n_var n_samples emp_covs j (sw ?d1) = Inr s
         \<and> (rc \<or> tol \<noteq> None \<longrightarrow>
              duality_gap L n_tasks n_var n_samples rho (cur_omega s) emp_covs \<noteq> None)"
      by auto
  qed
  from Suc.IH[OF this] obtain d' where
    "driver_loop L rho tol rc n_tasks n_var n_samples emp_covs n ?d1 = Inr d'" by blast
  with s1 og show ?case
    by (auto simp: Let_def)
qed


text \<open>
  What holds of the loop over the sweeps. Take a call whose arguments pass the
  validation, and write \<open>boundary j\<close> for the
  state after \<open>j\<close> sweeps from the start value and \<open>gap\<close> for the duality gap there.
  \<^item> If no sweep and no cost evaluation up to \<open>max_iter\<close> raises, the call returns:
    using up \<open>max_iter\<close> is not an error.
  \<^item> A call that returns has run at most \<open>max_iter\<close> sweeps (at least one when
    \<open>max_iter\<close> is at least one), and it returns the precision stack of the boundary
    it stopped at.
  \<^item> With \<open>tol = None\<close> it has run exactly \<open>max_iter\<close> sweeps.
  \<^item> With a tolerance, it stopped before \<open>max_iter\<close> only at a boundary whose gap is
    below the tolerance, and at no earlier boundary was the gap below the tolerance.
\<close>

theorem sweep_count_and_termination:
  assumes "isinstance_int_float rho" and "\<not> lt_zero rho" and "finite_value rho = Some r"
    and "empirical_covariances L tasks ac = Inr (emp_covs, n_samples, n_tasks, n_var)"
    and "2 \<le> n_var"
    and "initial_precisions emp_covs pinit = Inr omega0"
  defines "s0 \<equiv> \<lparr>cur_omega = omega0, cur_W = [], cur_Winv = [], n_warned = 0\<rparr>"
  defines "boundary \<equiv> \<lambda>j. run_sweeps L r n_tasks n_var n_samples emp_covs j s0"
  defines "gap \<equiv> \<lambda>s. duality_gap L n_tasks n_var n_samples r (cur_omega s) emp_covs"
  shows "((\<forall>j. 1 \<le> j \<and> j \<le> max_iter \<longrightarrow>
             (\<exists>s. boundary j = Inr s \<and> (rc \<or> tol \<noteq> None \<longrightarrow> gap s \<noteq> None)))
          \<longrightarrow> (\<exists>res. group_sparse_covariance L tasks rho max_iter tol ac rc pinit = Inr res))
       \<and> (\<forall>res. group_sparse_covariance L tasks rho max_iter tol ac rc pinit = Inr res \<longrightarrow>
              n_sweeps res \<le> max_iter \<and> (1 \<le> max_iter \<longrightarrow> 1 \<le> n_sweeps res)
            \<and> (\<exists>s. boundary (n_sweeps res) = Inr s \<and> precisions res = cur_omega s)
            \<and> (tol = None \<longrightarrow> n_sweeps res = max_iter)
            \<and> (\<forall>t. tol = Some t \<longrightarrow>
                  (n_sweeps res < max_iter \<longrightarrow>
                     (\<exists>s g. boundary (n_sweeps res) = Inr s \<and> gap s = Some g \<and> g < t))
                \<and> (\<forall>j. 1 \<le> j \<and> j < n_sweeps res \<longrightarrow>
                       (\<exists>s g. boundary j = Inr s \<and> gap s = Some g \<and> \<not> g < t))))"
proof -
  let ?d0 = "\<lparr>sw = s0, cost_trace = [], sweeps_done = 0\<rparr>"
  let ?run = "driver_loop L r tol rc n_tasks n_var n_samples emp_covs max_iter ?d0"
  have gsc: "group_sparse_covariance L tasks rho max_iter tol ac rc pinit
      = (case ?run of Inl e \<Rightarrow> Inl e
         | Inr d \<Rightarrow> Inr \<lparr>covariances = emp_covs, precisions = cur_omega (sw d),
                        costs = (if rc then Some (cost_trace d) else None),
                        n_warnings = n_warned (sw d), n_sweeps = sweeps_done d\<rparr>)"
    using assms(1-6) by (simp add: group_sparse_covariance_def optimize_def s0_def)
  have A: "(\<forall>j. 1 \<le> j \<and> j \<le> max_iter \<longrightarrow>
             (\<exists>s. boundary j = Inr s \<and> (rc \<or> tol \<noteq> None \<longrightarrow> gap s \<noteq> None)))
          \<longrightarrow> (\<exists>res. group_sparse_covariance L tasks rho max_iter tol ac rc pinit = Inr res)"
  proof
    assume "\<forall>j. 1 \<le> j \<and> j \<le> max_iter \<longrightarrow>
             (\<exists>s. boundary j = Inr s \<and> (rc \<or> tol \<noteq> None \<longrightarrow> gap s \<noteq> None))"
    then have "\<exists>d'. ?run = Inr d'"
      unfolding boundary_def gap_def by (intro driver_loop_returns) simp
    then show "\<exists>res. group_sparse_covariance L tasks rho max_iter tol ac rc pinit = Inr res"
      by (auto simp: gsc)
  qed
  have B: "\<forall>res. group_sparse_covariance L tasks rho max_iter tol ac rc pinit = Inr res \<longrightarrow>
              n_sweeps res \<le> max_iter \<and> (1 \<le> max_iter \<longrightarrow> 1 \<le> n_sweeps res)
            \<and> (\<exists>s. boundary (n_sweeps res) = Inr s \<and> precisions res = cur_omega s)
            \<and> (tol = None \<longrightarrow> n_sweeps res = max_iter)
            \<and> (\<forall>t. tol = Some t \<longrightarrow>
                  (n_sweeps res < max_iter \<longrightarrow>
                     (\<exists>s g. boundary (n_sweeps res) = Inr s \<and> gap s = Some g \<and> g < t))
                \<and> (\<forall>j. 1 \<le> j \<and> j < n_sweeps res \<longrightarrow>
                       (\<exists>s g. boundary j = Inr s \<and> gap s = Some g \<and> \<not> g < t)))"
  proof (intro allI impI)
    fix res assume "group_sparse_covariance L tasks rho max_iter tol ac rc pinit = Inr res"
    then obtain d where d: "?run = Inr d" and res: "n_sweeps res = sweeps_done d"
      "precisions res = cur_omega (sw d)"
      by (auto simp: gsc split: sum.splits)
    from driver_loop_char[OF d] res
    show "n_sweeps res \<le> max_iter \<and> (1 \<le> max_iter \<longrightarrow> 1 \<le> n_sweeps res)
            \<and> (\<exists>s. boundary (n_sweeps res) = Inr s \<and> precisions res = cur_omega s)
            \<and> (tol = None \<longrightarrow> n_sweeps res = max_iter)
            \<and> (\<forall>t. tol = Some t \<longrightarrow>
                  (n_sweeps res < max_iter \<longrightarrow>
                     (\<exists>s g. boundary (n_sweeps res) = Inr s \<and> gap s = Some g \<and> g < t))
                \<and> (\<forall>j. 1 \<le> j \<and> j < n_sweeps res \<longrightarrow>
                       (\<exists>s g. boundary j = Inr s \<and> gap s = Some g \<and> \<not> g < t)))"
      unfolding boundary_def gap_def by auto
  qed
  from A B show ?thesis by blast
qed

theorem sweep_count_and_termination_witness:
  "\<exists>res. group_sparse_covariance small_lib [[[1, 1], [1, -1]]] (PyInt 1) 3 (Some 1) True
            False None = Inr res
         \<and> n_sweeps res = 1"
proof -
  have b: "\<forall>j. 1 \<le> j \<and> j \<le> (3::nat) \<longrightarrow>
     (\<exists>s. run_sweeps small_lib 1 (Suc 0) 2 [1] [[[1, 0], [0, 1]]] j
            \<lparr>cur_omega = [[[1, 0], [0, 1]]], cur_W = [], cur_Winv = [], n_warned = 0\<rparr> = Inr s
        \<and> (False \<or> Some (1 :: real) \<noteq> None \<longrightarrow>
             duality_gap small_lib (Suc 0) 2 [1] 1 (cur_omega s) [[[1, 0], [0, 1]]] \<noteq> None))"
  proof (intro allI impI)
    fix j :: nat assume "1 \<le> j \<and> j \<le> 3"
    then obtain i where "j = Suc i" by (cases j) auto
    then show "\<exists>s. run_sweeps small_lib 1 (Suc 0) 2 [1] [[[1, 0], [0, 1]]] j
            \<lparr>cur_omega = [[[1, 0], [0, 1]]], cur_W = [], cur_Winv = [], n_warned = 0\<rparr> = Inr s
        \<and> (False \<or> Some (1 :: real) \<noteq> None \<longrightarrow>
             duality_gap small_lib (Suc 0) 2 [1] 1 (cur_omega s) [[[1, 0], [0, 1]]] \<noteq> None)"
      by (simp add: identity_run_sweeps duality_gap_def identity_costs del: run_sweeps.simps)
  qed
  note T = sweep_count_and_termination [of "PyInt 1" 1 small_lib "[[[1, 1], [1, -1]]]" True
      "[[[1, 0], [0, 1]]]" "[1]" "Suc 0" 2 None "[[[1, 0], [0, 1]]]" 3 False "Some 1"]
  have "\<exists>res. group_sparse_covariance small_lib [[[1, 1], [1, -1]]] (PyInt 1) 3 (Some 1)
            True False None = Inr res"
    using T two_samples_covariance identity_initial b by simp
  then obtain res where res:
    "group_sparse_covariance small_lib [[[1, 1], [1, -1]]] (PyInt 1) 3 (Some 1) True
            False None = Inr res" ..
  have n1: "1 \<le> n_sweeps res"
    using T two_samples_covariance identity_initial res by simp
  have nb: "\<forall>j. 1 \<le> j \<and> j < n_sweeps res \<longrightarrow>
       (\<exists>s g. run_sweeps small_lib 1 (Suc 0) 2 [1] [[[1, 0], [0, 1]]] j
            \<lparr>cur_omega = [[[1, 0], [0, 1]]], cur_W = [], cur_Winv = [], n_warned = 0\<rparr> = Inr s
          \<and> duality_gap small_lib (Suc 0) 2 [1] 1 (cur_omega s) [[[1, 0], [0, 1]]] = Some g
          \<and> \<not> g < 1)"
    using T two_samples_covariance identity_initial res by simp
  have "\<not> 1 < n_sweeps res"
  proof
    assume "1 < n_sweeps res"
    with nb[rule_format, of "Suc 0"] show False
      by (simp add: identity_run_sweeps duality_gap_def identity_costs del: run_sweeps.simps)
  qed
  with res n1 show ?thesis by auto
qed

text \<open>
  C4. The claim has every call with \<open>max_iter \<ge> 1\<close> return after at most \<open>max_iter\<close>
  sweeps. The docstring (lines 223-226) names \<open>rho = 0\<close> as a value of the regularisation
  parameter ("zero is no regularization: output is not sparse"), and line 276 lets it
  pass. The code does not return there: in the call
  \<^verbatim>\<open>group_sparse_covariance([[[1, 0], [1, 1]]], 0, max_iter=1, tol=None, assume_centered=True)\<close>
  the first root-find of the first sweep uses up its 50 iterations and the
  \<^verbatim>\<open>RuntimeError\<close> of \<^verbatim>\<open>scipy.optimize.newton\<close> ends the call.
\<close>

theorem rho_zero_raises:
  "group_sparse_covariance small_lib [[[1, 0], [1, 1]]] (PyInt 0) 1 None True False None
     = Inl RuntimeError"
  by (rule rho_zero_call)

theorem rho_zero_raises_witness:
  "\<forall>res. group_sparse_covariance small_lib [[[1, 0], [1, 1]]] (PyInt 0) 1 None True False None
           \<noteq> Inr res"
  using rho_zero_raises by simp

end
